theory Spec2Isabelle
  imports Main "HOL-Library.Sublist"
begin

section \<open>Path and name handling of \<^verbatim>\<open>run.py\<close>\<close>

text \<open>
  The grader script \<^verbatim>\<open>run.py\<close> has two functions, \<^verbatim>\<open>grade\<close> and
  \<^verbatim>\<open>create_container\<close>. Both work on POSIX path strings and derive the name of a
  container from them with \<^verbatim>\<open>os.path.basename\<close> and \<^verbatim>\<open>re.sub\<close>. Strings are
  \<^typ>\<open>string\<close>; the functions of \<^verbatim>\<open>posixpath\<close> are written out as the library defines
  them.
\<close>

definition basename :: "string \<Rightarrow> string" where
  \<comment> \<open>\<^verbatim>\<open>os.path.basename(p)\<close>: everything after the last slash.\<close>
  "basename p = rev (takeWhile (\<lambda>c. c \<noteq> CHR ''/'') (rev p))"

definition join :: "string \<Rightarrow> string \<Rightarrow> string" where
  \<comment> \<open>\<^verbatim>\<open>os.path.join(a, b)\<close> with two arguments.\<close>
  "join a b =
     (if take 1 b = ''/'' then b
      else if a = [] \<or> last a = CHR ''/'' then a @ b
      else a @ ''/'' @ b)"

subsection \<open>The two regular expressions\<close>

text \<open>
  \<^verbatim>\<open>re.sub(pattern, '', s)\<close> scans \<^verbatim>\<open>s\<close> from the left; at each position it tries
  the pattern, deletes the match it finds and goes on behind it, and otherwise keeps the
  character and moves one position on. A matcher is given the rest of the string from the
  current position and answers with the length of the match there. Neither pattern of the
  script matches the empty string.

  The anchor \<^verbatim>\<open>$\<close> (no \<^verbatim>\<open>MULTILINE\<close> flag) matches at the end of the string and
  right before a newline that ends the string.
\<close>

definition at_end :: "string \<Rightarrow> bool" where
  "at_end s = (s = [] \<or> s = [CHR 0x0A])"

definition match_submit :: "string \<Rightarrow> nat option" where
  \<comment> \<open>\<^verbatim>\<open>_submit$\<close>\<close>
  "match_submit s = (if take 7 s = ''_submit'' \<and> at_end (drop 7 s) then Some 7 else None)"

definition match_extension :: "string \<Rightarrow> nat option" where
  \<comment> \<open>\<^verbatim>\<open>\.[^\/]+$\<close>: a dot, then the longest run of characters other than the slash,
      given back one character at a time until the anchor holds.\<close>
  "match_extension s =
     (case s of
        [] \<Rightarrow> None
      | c # r \<Rightarrow>
          if c = CHR ''.'' then
            (let k = length (takeWhile (\<lambda>x. x \<noteq> CHR ''/'') r)
             in map_option Suc (find (\<lambda>j. at_end (drop j r)) (rev [1..<Suc k])))
          else None)"

definition match_user :: "string \<Rightarrow> nat option" where
  \<comment> \<open>\<^verbatim>\<open>(_submit|\.[^\/]+)$\<close>: the first alternative is tried first.\<close>
  "match_user s = (case match_submit s of Some n \<Rightarrow> Some n | None \<Rightarrow> match_extension s)"

fun re_sub_empty :: "(string \<Rightarrow> nat option) \<Rightarrow> string \<Rightarrow> string" where
  "re_sub_empty m [] = []"
| "re_sub_empty m (c # cs) =
     (case m (c # cs) of
        Some (Suc n) \<Rightarrow> re_sub_empty m (drop n cs)
      | _ \<Rightarrow> c # re_sub_empty m cs)"

definition display_name :: "string \<Rightarrow> string" where
  \<comment> \<open>\<^verbatim>\<open>user = re.sub(r'(_submit|\.[^\/]+)$', '', os.path.basename(file))\<close>\<close>
  "display_name file = re_sub_empty match_user (basename file)"

definition container_name :: "string \<Rightarrow> string \<Rightarrow> string" where
  \<comment> \<open>\<^verbatim>\<open>name = "{0}_{1}".format(os.path.basename(folder), user)\<close>\<close>
  "container_name folder file = basename folder @ ''_'' @ display_name file"

definition folder_name :: "string \<Rightarrow> string" where
  \<comment> \<open>\<^verbatim>\<open>name = re.sub(r'_submit$', '', os.path.basename(folder))\<close> in \<^verbatim>\<open>grade\<close>\<close>
  "folder_name folder = re_sub_empty match_submit (basename folder)"

definition name_matches :: "string \<Rightarrow> string \<Rightarrow> bool" where
  \<comment> \<open>\<^verbatim>\<open>container_name[1:] == name\<close>\<close>
  "name_matches reported name = (drop 1 reported = name)"

section \<open>The world the script runs in\<close>

text \<open>
  The script acts on a file system and on a Docker daemon. Both are state that the model
  passes along explicitly.

  A path names a plain file with its bytes, or a directory with the names of its
  entries. \<^verbatim>\<open>os.path.abspath\<close> names the same file as the path it is given, so the
  model looks a path up as it stands.
\<close>

datatype node = File string | Dir "string list"

text \<open>A container as \<^verbatim>\<open>cli.containers(all=True)\<close> reports it, with the archives that
  were copied into it.\<close>

record container =
  c_Id :: string
  c_Names :: "string list"
  c_Image :: string
  c_Archives :: "(string \<times> string) list"

text \<open>The keyword arguments of \<^verbatim>\<open>cli.create_container\<close>; \<^verbatim>\<open>ca_mem_limit\<close> is the
  argument of \<^verbatim>\<open>cli.create_host_config\<close>.\<close>

record create_args =
  ca_image :: string
  ca_mem_limit :: string
  ca_network_disabled :: bool
  ca_name :: string
  ca_detach :: bool
  ca_tty :: bool
  ca_command :: string

text \<open>
  The parts of the world that the repository's sources do not define are fields of the
  world: \<^verbatim>\<open>utils.make_gzip\<close> (imported by \<^verbatim>\<open>run.py\<close>, its module is not among the
  sources), \<^verbatim>\<open>mimetypes.guess_type\<close>, the gzip decoder and the answers of the daemon.
  \<^item> \<open>utils_make_gzip files src name\<close> is \<open>None\<close> when the helper raises, and otherwise
    the path it returns with the files it leaves behind;
  \<^item> \<open>list_error cs\<close> is the text of the exception that listing the containers raises
    while the containers are \<open>cs\<close>;
  \<^item> \<open>remove_error i\<close> is the text of the exception that removing container \<open>i\<close> raises;
  \<^item> \<open>create_id cs a\<close> is the id the daemon gives the new container, \<open>None\<close> when it
    refuses;
  \<^item> \<open>put_fails i d\<close> says that copying the archive \<open>d\<close> into container \<open>i\<close> raises.
\<close>

record world =
  fs :: "string \<Rightarrow> node option"
  containers :: "container list"
  guess_encoding :: "string \<Rightarrow> string option"
  utils_make_gzip ::
    "(string \<Rightarrow> node option) \<Rightarrow> string \<Rightarrow> string option
       \<Rightarrow> (string \<times> (string \<Rightarrow> node option)) option"
  gunzip :: "string \<Rightarrow> string option"
  list_error :: "container list \<Rightarrow> string option"
  remove_error :: "string \<Rightarrow> string option"
  create_id :: "container list \<Rightarrow> create_args \<Rightarrow> string option"
  put_fails :: "string \<Rightarrow> string \<Rightarrow> bool"

subsection \<open>What a run does: printed lines, exceptions, calls\<close>

text \<open>One constructor for each \<^verbatim>\<open>print\<close> of the script.\<close>

datatype message =
    MsgInvalidFolder          \<comment> \<open>Must provide a valid folder of assignments\<close>
  | MsgInvalidExtra           \<comment> \<open>Extra argument must be a valid file.\<close>
  | MsgCreatingTempGzip       \<comment> \<open>Creating temporary gzip file for extra\<close>
  | MsgCleaning               \<comment> \<open>Cleaning up temporary files\<close>
  | MsgUser string            \<comment> \<open>user:\<close>
  | MsgSkipMismatch string    \<comment> \<open>Container already exists for "name" and it doesn't appear
                                  to match the provided image. Skipping assignment\<close>
  | MsgRemoving               \<comment> \<open>Removing old container\<close>
  | MsgRemoveFailed string    \<comment> \<open>Failed to remove. text. Skipping assignment.\<close>
  | MsgExtracting             \<comment> \<open>Extracting assignment\<close>
  | MsgExtractingExtra        \<comment> \<open>Extracting extra file\<close>
  | MsgCreated                \<comment> \<open>Container created\<close>

datatype exn =
    StopIteration             \<comment> \<open>\<^verbatim>\<open>next\<close> on a walk that yields nothing\<close>
  | MakeGzipError             \<comment> \<open>raised by \<^verbatim>\<open>utils.make_gzip\<close>\<close>
  | APIError string           \<comment> \<open>raised by the Docker client\<close>
  | GzipError                 \<comment> \<open>\<^verbatim>\<open>gzip.open(...).read()\<close> on a missing file or on other data\<close>
  | OSError                   \<comment> \<open>\<^verbatim>\<open>os.remove\<close> on a path that is no plain file\<close>

fun str_exn :: "exn \<Rightarrow> string" where
  "str_exn (APIError m) = m"
| "str_exn StopIteration = []"
| "str_exn MakeGzipError = ''MakeGzipError''"
| "str_exn GzipError = ''GzipError''"
| "str_exn OSError = ''OSError''"

text \<open>
  Every call that reaches outside the process is an event of the run, in the order of the
  calls: \<open>MakeGzip src name result\<close>, \<open>ListContainers all\<close>,
  \<open>RemoveContainer id force\<close>, \<open>CreateContainer args result\<close>, \<open>GzipRead path\<close>,
  \<open>PutArchive id path data\<close>, \<open>OsRemove path\<close>, and the printed lines.
\<close>

datatype event =
    Print message
  | MakeGzip string "string option" "string option"
  | ListContainers bool
  | RemoveContainer string bool
  | CreateContainer create_args "string option"
  | GzipRead string
  | PutArchive string string string
  | OsRemove string

text \<open>
  A piece of the script takes the world and gives back its value or the exception it
  raised, the world it leaves, and its events.
\<close>

type_synonym 'a io = "world \<Rightarrow> (exn + 'a) \<times> world \<times> event list"

definition io_return :: "'a \<Rightarrow> 'a io" where
  "io_return x = (\<lambda>w. (Inr x, w, []))"

definition io_bind :: "'a io \<Rightarrow> ('a \<Rightarrow> 'b io) \<Rightarrow> 'b io" where
  "io_bind m f =
     (\<lambda>w. case m w of
        (Inl e, w1, evs) \<Rightarrow> (Inl e, w1, evs)
      | (Inr x, w1, evs) \<Rightarrow> (case f x w1 of (r, w2, evs') \<Rightarrow> (r, w2, evs @ evs')))"

definition emit :: "event \<Rightarrow> unit io" where
  "emit e = (\<lambda>w. (Inr (), w, [e]))"

definition result_of :: "(exn + 'a) \<times> world \<times> event list \<Rightarrow> exn + 'a" where
  "result_of r = fst r"

definition world_of :: "(exn + 'a) \<times> world \<times> event list \<Rightarrow> world" where
  "world_of r = fst (snd r)"

definition events_of :: "(exn + 'a) \<times> world \<times> event list \<Rightarrow> event list" where
  "events_of r = snd (snd r)"

subsection \<open>File system calls\<close>

definition os_path_isdir :: "world \<Rightarrow> string \<Rightarrow> bool" where
  "os_path_isdir w p = (case fs w p of Some (Dir names) \<Rightarrow> True | _ \<Rightarrow> False)"

definition os_path_isfile :: "world \<Rightarrow> string \<Rightarrow> bool" where
  "os_path_isfile w p = (case fs w p of Some (File bytes) \<Rightarrow> True | _ \<Rightarrow> False)"

definition os_walk_next :: "string \<Rightarrow> (string \<times> string list \<times> string list) io" where
  \<comment> \<open>\<^verbatim>\<open>next(os.walk(path))\<close>: the generator is asked for its first triple only, the
      listing of \<open>path\<close> itself, split into directories and everything else.\<close>
  "os_walk_next path =
     (\<lambda>w. case fs w path of
        Some (Dir names) \<Rightarrow>
          (Inr (path, filter (\<lambda>n. os_path_isdir w (join path n)) names,
                     filter (\<lambda>n. \<not> os_path_isdir w (join path n)) names), w, [])
      | _ \<Rightarrow> (Inl StopIteration, w, []))"

definition make_gzip :: "string \<Rightarrow> string option \<Rightarrow> string io" where
  "make_gzip src name =
     (\<lambda>w. case utils_make_gzip w (fs w) src name of
        None \<Rightarrow> (Inl MakeGzipError, w, [MakeGzip src name None])
      | Some (p, files) \<Rightarrow> (Inr p, w\<lparr>fs := files\<rparr>, [MakeGzip src name (Some p)]))"

definition gzip_read :: "string \<Rightarrow> string io" where
  \<comment> \<open>\<^verbatim>\<open>with gzip.open(os.path.abspath(file)) as g: ... g.read()\<close>\<close>
  "gzip_read p =
     (\<lambda>w. case fs w p of
        Some (File bytes) \<Rightarrow>
          (case gunzip w bytes of
             Some d \<Rightarrow> (Inr d, w, [GzipRead p])
           | None \<Rightarrow> (Inl GzipError, w, [GzipRead p]))
      | _ \<Rightarrow> (Inl GzipError, w, [GzipRead p]))"

definition os_remove :: "string \<Rightarrow> unit io" where
  "os_remove p =
     (\<lambda>w. case fs w p of
        Some (File bytes) \<Rightarrow> (Inr (), w\<lparr>fs := (fs w)(p := None)\<rparr>, [OsRemove p])
      | _ \<Rightarrow> (Inl OSError, w, [OsRemove p]))"

subsection \<open>Calls of the Docker client\<close>

definition cli_containers :: "bool \<Rightarrow> container list io" where
  "cli_containers all =
     (\<lambda>w. case list_error w (containers w) of
        Some m \<Rightarrow> (Inl (APIError m), w, [ListContainers all])
      | None \<Rightarrow> (Inr (containers w), w, [ListContainers all]))"

definition cli_remove_container :: "string \<Rightarrow> bool \<Rightarrow> unit io" where
  "cli_remove_container i force =
     (\<lambda>w. case remove_error w i of
        Some m \<Rightarrow> (Inl (APIError m), w, [RemoveContainer i force])
      | None \<Rightarrow>
          (Inr (), w\<lparr>containers := filter (\<lambda>c. c_Id c \<noteq> i) (containers w)\<rparr>,
           [RemoveContainer i force]))"

text \<open>The daemon never gives out an id that is in use: such an answer of \<open>create_id\<close>
  counts as a refusal.\<close>

definition cli_create_container :: "create_args \<Rightarrow> string io" where
  "cli_create_container a =
     (\<lambda>w. case create_id w (containers w) a of
        None \<Rightarrow> (Inl (APIError ''create''), w, [CreateContainer a None])
      | Some i \<Rightarrow>
          if i \<in> set (map c_Id (containers w))
          then (Inl (APIError ''create''), w, [CreateContainer a None])
          else (Inr i,
                w\<lparr>containers :=
                    \<lparr>c_Id = i, c_Names = [CHR ''/'' # ca_name a], c_Image = ca_image a,
                     c_Archives = []\<rparr> # containers w\<rparr>,
                [CreateContainer a (Some i)]))"

definition cli_put_archive :: "string \<Rightarrow> string \<Rightarrow> string \<Rightarrow> unit io" where
  "cli_put_archive i path d =
     (\<lambda>w. if put_fails w i d then (Inl (APIError ''put''), w, [PutArchive i path d])
          else (Inr (),
                w\<lparr>containers :=
                    map (\<lambda>c. if c_Id c = i then c\<lparr>c_Archives := c_Archives c @ [(path, d)]\<rparr>
                             else c) (containers w)\<rparr>,
                [PutArchive i path d]))"

definition mem_limit_bytes :: "string \<Rightarrow> nat option" where
  \<comment> \<open>How the Docker client reads a limit spelled as a decimal number and a unit letter.\<close>
  "mem_limit_bytes s =
     (case rev s of
        [] \<Rightarrow> None
      | u # ds \<Rightarrow>
          if ds = [] \<or> (\<exists>c \<in> set ds. of_char c < (48::nat) \<or> (57::nat) < of_char c) then None
          else
            (let n = foldl (\<lambda>acc c. 10 * acc + (of_char c - 48)) (0::nat) (rev ds)
             in if u = CHR ''b'' then Some n
                else if u = CHR ''k'' then Some (n * 2 ^ 10)
                else if u = CHR ''m'' then Some (n * 2 ^ 20)
                else if u = CHR ''g'' then Some (n * 2 ^ 30)
                else None))"

section \<open>\<^verbatim>\<open>create_container\<close>\<close>

text \<open>
  The inner loop over \<^verbatim>\<open>c['Names']\<close>. Its value says whether the function returned
  from inside the loop; \<^verbatim>\<open>break\<close> and the end of the names both leave it with
  \<open>False\<close>, and the loop over the containers goes on with the next container.
\<close>

fun names_loop :: "string \<Rightarrow> string \<Rightarrow> container \<Rightarrow> string list \<Rightarrow> bool io" where
  "names_loop name img c [] w = (Inr False, w, [])"
| "names_loop name img c (cname # rest) w =
     (if name_matches cname name then
        (if c_Image c \<noteq> img then (Inr True, w, [Print (MsgSkipMismatch name)])
         else
           (case cli_remove_container (c_Id c) True w of
              (Inl e, w1, evs) \<Rightarrow>
                (Inr True, w1, Print MsgRemoving # evs @ [Print (MsgRemoveFailed (str_exn e))])
            | (Inr u, w1, evs) \<Rightarrow> (Inr False, w1, Print MsgRemoving # evs)))
      else names_loop name img c rest w)"

fun containers_loop :: "string \<Rightarrow> string \<Rightarrow> container list \<Rightarrow> bool io" where
  "containers_loop name img [] w = (Inr False, w, [])"
| "containers_loop name img (c # cs) w =
     (case names_loop name img c (c_Names c) w of
        (Inr False, w1, evs) \<Rightarrow>
          (case containers_loop name img cs w1 of (r, w2, evs') \<Rightarrow> (r, w2, evs @ evs'))
      | (r, w1, evs) \<Rightarrow> (r, w1, evs))"

definition new_container_args :: "string \<Rightarrow> string \<Rightarrow> create_args" where
  \<comment> \<open>\<^verbatim>\<open>hostconf = cli.create_host_config(mem_limit='64m')\<close> and the arguments of
      \<^verbatim>\<open>cli.create_container\<close>\<close>
  "new_container_args img name =
     \<lparr>ca_image = img, ca_mem_limit = ''64m'', ca_network_disabled = True, ca_name = name,
      ca_detach = True, ca_tty = True, ca_command = ''/bin/bash''\<rparr>"

definition extract_into :: "string \<Rightarrow> string \<Rightarrow> unit io" where
  \<comment> \<open>\<^verbatim>\<open>with gzip.open(...) as g: cli.put_archive(container=id, path="/home/", data=g.read())\<close>\<close>
  "extract_into i file = io_bind (gzip_read file) (\<lambda>d. cli_put_archive i ''/home/'' d)"

definition create_and_extract :: "string \<Rightarrow> string \<Rightarrow> string \<Rightarrow> string option \<Rightarrow> unit io" where
  \<comment> \<open>The script from \<^verbatim>\<open>hostconf = ...\<close> to its last line.\<close>
  "create_and_extract name file img extra =
     io_bind (cli_create_container (new_container_args img name)) (\<lambda>i.
     io_bind (emit (Print MsgExtracting)) (\<lambda>u.
     io_bind (extract_into i file) (\<lambda>u.
     io_bind (case extra of
                None \<Rightarrow> io_return ()
              | Some x \<Rightarrow>
                  io_bind (emit (Print MsgExtractingExtra)) (\<lambda>u. extract_into i x)) (\<lambda>u.
     emit (Print MsgCreated)))))"

definition create_container :: "string \<Rightarrow> string \<Rightarrow> string \<Rightarrow> string option \<Rightarrow> unit io" where
  "create_container folder file img extra =
     io_bind (emit (Print (MsgUser (display_name file)))) (\<lambda>u.
     io_bind (cli_containers True) (\<lambda>cs.
     io_bind (containers_loop (container_name folder file) img cs) (\<lambda>returned.
       if returned then io_return ()
       else create_and_extract (container_name folder file) file img extra)))"

section \<open>\<^verbatim>\<open>grade\<close>\<close>

record args =
  args_folder :: string
  args_image :: string
  args_extra :: "string option"

text \<open>The loop over the directories: each is packed, the archive joins the cleanup list
  and is handed to \<^verbatim>\<open>create_container\<close> as \<^verbatim>\<open>cleanup[-1]\<close>.\<close>

fun dirs_loop ::
  "string \<Rightarrow> string \<Rightarrow> string option \<Rightarrow> string list \<Rightarrow> string list \<Rightarrow> string list io" where
  "dirs_loop dirpath img extra cleanup [] w = (Inr cleanup, w, [])"
| "dirs_loop dirpath img extra cleanup (folder # rest) w =
     (case io_bind (make_gzip folder (Some (folder_name folder))) (\<lambda>p.
           io_bind (create_container dirpath p img extra) (\<lambda>u. io_return p)) w of
        (Inl e, w1, evs) \<Rightarrow> (Inl e, w1, evs)
      | (Inr p, w1, evs) \<Rightarrow>
          (case dirs_loop dirpath img extra (cleanup @ [p]) rest w1 of
             (r, w2, evs') \<Rightarrow> (r, w2, evs @ evs')))"

fun files_loop :: "string \<Rightarrow> string \<Rightarrow> string option \<Rightarrow> string list \<Rightarrow> unit io" where
  "files_loop dirpath img extra [] w = (Inr (), w, [])"
| "files_loop dirpath img extra (filename # rest) w =
     (case create_container dirpath filename img extra w of
        (Inl e, w1, evs) \<Rightarrow> (Inl e, w1, evs)
      | (Inr u, w1, evs) \<Rightarrow>
          (case files_loop dirpath img extra rest w1 of
             (r, w2, evs') \<Rightarrow> (r, w2, evs @ evs')))"

fun cleanup_loop :: "string list \<Rightarrow> unit io" where
  "cleanup_loop [] w = (Inr (), w, [])"
| "cleanup_loop (f # rest) w =
     (case os_remove f w of
        (Inl e, w1, evs) \<Rightarrow> (Inl e, w1, evs)
      | (Inr u, w1, evs) \<Rightarrow>
          (case cleanup_loop rest w1 of (r, w2, evs') \<Rightarrow> (r, w2, evs @ evs')))"

definition scan_and_run :: "string \<Rightarrow> string \<Rightarrow> string option \<Rightarrow> string list \<Rightarrow> unit io" where
  \<comment> \<open>\<^verbatim>\<open>grade\<close> from the walk to its last line; \<open>extra\<close> and \<open>cleanup\<close> are
      \<^verbatim>\<open>args.extra\<close> and \<^verbatim>\<open>cleanup\<close> as the checks before left them.\<close>
  "scan_and_run folder img extra cleanup =
     io_bind (os_walk_next folder) (\<lambda>(dirpath, dirnames, filenames).
     io_bind (dirs_loop dirpath img extra cleanup (map (join dirpath) dirnames)) (\<lambda>cleanup'.
     io_bind (files_loop dirpath img extra (map (join dirpath) filenames)) (\<lambda>u.
     io_bind (emit (Print MsgCleaning)) (\<lambda>u.
     cleanup_loop cleanup'))))"

definition grade :: "args \<Rightarrow> unit io" where
  "grade a =
     (\<lambda>w. if \<not> os_path_isdir w (args_folder a) then emit (Print MsgInvalidFolder) w
          else
            (case args_extra a of
               None \<Rightarrow> scan_and_run (args_folder a) (args_image a) None [] w
             | Some e \<Rightarrow>
                 if \<not> os_path_isfile w e then emit (Print MsgInvalidExtra) w
                 else if os_path_isdir w e \<or> guess_encoding w e \<noteq> Some ''gzip'' then
                   io_bind (emit (Print MsgCreatingTempGzip)) (\<lambda>u.
                   io_bind (make_gzip e None) (\<lambda>p.
                   scan_and_run (args_folder a) (args_image a) (Some p) [p])) w
                 else scan_and_run (args_folder a) (args_image a) (Some e) [] w))"

fun runs :: "nat \<Rightarrow> args \<Rightarrow> world \<Rightarrow> world" where
  \<comment> \<open>The script run \<open>n\<close> times in a row on the same arguments.\<close>
  "runs 0 a w = w"
| "runs (Suc n) a w = runs n a (world_of (grade a w))"

section \<open>Tools for reasoning about runs\<close>

text \<open>\<open>io_inv I P m\<close>: the piece \<open>m\<close> keeps the property \<open>I\<close> of the world, whether it
  returns or raises, and every event of it satisfies \<open>P\<close>.\<close>

definition io_inv :: "(world \<Rightarrow> bool) \<Rightarrow> (event \<Rightarrow> bool) \<Rightarrow> 'a io \<Rightarrow> bool" where
  "io_inv I P m = (\<forall>w. I w \<longrightarrow> I (world_of (m w)) \<and> list_all P (events_of (m w)))"

text \<open>The events the lookup of \<^verbatim>\<open>create_container\<close> can have, the events of a
  container that is created and filled without a failure, and the property of the world
  that claim C1 is about: the container \<open>c\<close> is listed and no two listed containers share
  an id.\<close>

definition lookup_event :: "string \<Rightarrow> string \<Rightarrow> container list \<Rightarrow> event \<Rightarrow> bool" where
  "lookup_event name img cs e =
     (case e of
        Print m \<Rightarrow>
          (case m of
             MsgRemoving \<Rightarrow> True
           | MsgSkipMismatch n \<Rightarrow> n = name
           | MsgRemoveFailed t \<Rightarrow> True
           | _ \<Rightarrow> False)
      | RemoveContainer i force \<Rightarrow>
          force \<and> (\<exists>d \<in> set cs. c_Id d = i \<and> c_Image d = img
                      \<and> (\<exists>r \<in> set (c_Names d). name_matches r name))
      | _ \<Rightarrow> False)"

definition extraction_trace ::
  "string \<Rightarrow> string \<Rightarrow> string \<Rightarrow> string option \<Rightarrow> string \<Rightarrow> string \<Rightarrow> string \<Rightarrow> event list" where
  "extraction_trace name file img extra i d d' =
     [CreateContainer (new_container_args img name) (Some i), Print MsgExtracting,
      GzipRead file, PutArchive i ''/home/'' d]
     @ (case extra of
          None \<Rightarrow> []
        | Some x \<Rightarrow> [Print MsgExtractingExtra, GzipRead x, PutArchive i ''/home/'' d'])
     @ [Print MsgCreated]"

definition keeps :: "container \<Rightarrow> world \<Rightarrow> bool" where
  "keeps c w = (c \<in> set (containers w) \<and> distinct (map c_Id (containers w)))"

text \<open>The events one call of \<^verbatim>\<open>create_container\<close> can have.\<close>

definition submission_event :: "string \<Rightarrow> string \<Rightarrow> string \<Rightarrow> string option \<Rightarrow> event \<Rightarrow> bool" where
  "submission_event folder file img extra e =
     (case e of
        Print m \<Rightarrow>
          (case m of
             MsgUser u \<Rightarrow> u = display_name file
           | MsgSkipMismatch n \<Rightarrow> n = container_name folder file
           | MsgRemoving \<Rightarrow> True
           | MsgRemoveFailed t \<Rightarrow> True
           | MsgExtracting \<Rightarrow> True
           | MsgExtractingExtra \<Rightarrow> extra \<noteq> None
           | MsgCreated \<Rightarrow> True
           | _ \<Rightarrow> False)
      | ListContainers all \<Rightarrow> all
      | RemoveContainer i force \<Rightarrow> force
      | CreateContainer a r \<Rightarrow> a = new_container_args img (container_name folder file)
      | GzipRead p \<Rightarrow> p = file \<or> extra = Some p
      | PutArchive i p d \<Rightarrow> p = ''/home/''
      | MakeGzip s n r \<Rightarrow> False
      | OsRemove p \<Rightarrow> False)"

text \<open>What a list of events says: the arguments of the containers it creates, the
  containers it copies archives into, the containers it removes, the archives it has
  packed, the paths it deletes, the directories it packs and the names it prints.\<close>

fun created_of :: "event \<Rightarrow> create_args list" where
  "created_of (CreateContainer a r) = [a]"
| "created_of e = []"

definition creations :: "event list \<Rightarrow> create_args list" where
  "creations evs = concat (map created_of evs)"

fun put_of :: "event \<Rightarrow> string list" where
  "put_of (PutArchive i p d) = [i]"
| "put_of e = []"

definition put_targets :: "event list \<Rightarrow> string list" where
  "put_targets evs = concat (map put_of evs)"

fun removal_of :: "event \<Rightarrow> string list" where
  "removal_of (RemoveContainer i force) = [i]"
| "removal_of e = []"

definition removals :: "event list \<Rightarrow> string list" where
  "removals evs = concat (map removal_of evs)"

fun made_of :: "event \<Rightarrow> string list" where
  "made_of (MakeGzip src name (Some p)) = [p]"
| "made_of e = []"

definition made_paths :: "event list \<Rightarrow> string list" where
  "made_paths evs = concat (map made_of evs)"

fun removed_of :: "event \<Rightarrow> string list" where
  "removed_of (OsRemove p) = [p]"
| "removed_of e = []"

definition removed_paths :: "event list \<Rightarrow> string list" where
  "removed_paths evs = concat (map removed_of evs)"

fun packed_of :: "event \<Rightarrow> string list" where
  "packed_of (MakeGzip src (Some name) r) = [src]"
| "packed_of e = []"

definition packed_dirs :: "event list \<Rightarrow> string list" where
  "packed_dirs evs = concat (map packed_of evs)"

fun user_of :: "event \<Rightarrow> string list" where
  "user_of (Print (MsgUser u)) = [u]"
| "user_of e = []"

definition users :: "event list \<Rightarrow> string list" where
  "users evs = concat (map user_of evs)"

fun wrapped_of :: "event \<Rightarrow> string list" where
  "wrapped_of (MakeGzip src None r) = [src]"
| "wrapped_of e = []"

definition wrapped :: "event list \<Rightarrow> string list" where
  \<comment> \<open>the sources packed without a name: \<^verbatim>\<open>make_gzip(args.extra)\<close>\<close>
  "wrapped evs = concat (map wrapped_of evs)"

fun read_path :: "event \<Rightarrow> string" where
  "read_path (GzipRead p) = p"
| "read_path e = []"

fun put_data :: "event \<Rightarrow> string" where
  "put_data (PutArchive i p d) = d"
| "put_data e = []"

definition puts_follow :: "string \<Rightarrow> string \<Rightarrow> event list \<Rightarrow> bool" where
  \<comment> \<open>The events right after the creation of container \<open>i\<close>: an archive is read and
      copied to \<^verbatim>\<open>/home/\<close> of \<open>i\<close>, then the archive \<open>x\<close> is read and copied to the same
      place.\<close>
  "puts_follow i x rest =
     (take 6 rest =
        [Print MsgExtracting, GzipRead (read_path (rest ! 1)),
         PutArchive i ''/home/'' (put_data (rest ! 2)),
         Print MsgExtractingExtra, GzipRead x,
         PutArchive i ''/home/'' (put_data (rest ! 5))])"

fun extra_applied :: "string \<Rightarrow> event list \<Rightarrow> bool" where
  \<comment> \<open>Every container that the events create gets the archive \<open>x\<close> after its own.\<close>
  "extra_applied x [] = True"
| "extra_applied x (e # rest) =
     ((case e of
         CreateContainer a r \<Rightarrow> (case r of None \<Rightarrow> True | Some i \<Rightarrow> puts_follow i x rest)
       | _ \<Rightarrow> True)
      \<and> extra_applied x rest)"

text \<open>\<open>packer_event g e\<close>: if \<open>e\<close> is a packing that returned a path, then the packer \<open>g\<close>
  can return that path for these arguments.\<close>

definition packer_event ::
  "((string \<Rightarrow> node option) \<Rightarrow> string \<Rightarrow> string option
      \<Rightarrow> (string \<times> (string \<Rightarrow> node option)) option) \<Rightarrow> event \<Rightarrow> bool" where
  "packer_event g e =
     (case e of
        MakeGzip src name r \<Rightarrow>
          (case r of
             None \<Rightarrow> True
           | Some p \<Rightarrow> (\<exists>files files'. g files src name = Some (p, files')))
      | _ \<Rightarrow> True)"

text \<open>The events a whole batch can have, as far as containers go.\<close>

definition batch_event :: "string \<Rightarrow> string \<Rightarrow> event \<Rightarrow> bool" where
  "batch_event folder img e =
     (case e of
        CreateContainer a r \<Rightarrow> (\<exists>file. a = new_container_args img (container_name folder file))
      | PutArchive i p d \<Rightarrow> p = ''/home/''
      | _ \<Rightarrow> True)"

text \<open>
  The line that reports a failed removal, the events that begin the next piece of work of
  a batch (the packing of a directory, the line with the name of a submission, the cleanup
  line), and the lists of events in which every report of a failed removal that has a
  successor is followed by such a beginning.
\<close>

fun remove_failed :: "event \<Rightarrow> bool" where
  "remove_failed (Print (MsgRemoveFailed m)) = True"
| "remove_failed e = False"

fun starts_next :: "event \<Rightarrow> bool" where
  "starts_next (Print (MsgUser u)) = True"
| "starts_next (Print MsgCleaning) = True"
| "starts_next (MakeGzip src (Some name) r) = True"
| "starts_next e = False"

fun followed :: "event list \<Rightarrow> bool" where
  "followed [] = True"
| "followed [e] = True"
| "followed (e # n # rest) = ((remove_failed e \<longrightarrow> starts_next n) \<and> followed (n # rest))"

section \<open>A sample world\<close>

text \<open>
  A folder \<^verbatim>\<open>hw\<close> with the directory \<^verbatim>\<open>a_submit\<close> (one file inside) and the archive
  \<^verbatim>\<open>b.gz\<close>, a plain file \<^verbatim>\<open>x\<close>, an archive \<^verbatim>\<open>x.gz\<close> and a directory
  \<^verbatim>\<open>extras\<close>; a daemon without containers that accepts every call; and a packer that
  writes its archive under \<^verbatim>\<open>tmp/\<close>. The theorems below are run on it and on
  variants of it.
\<close>

definition sample_make_gzip ::
  "(string \<Rightarrow> node option) \<Rightarrow> string \<Rightarrow> string option \<Rightarrow> (string \<times> (string \<Rightarrow> node option)) option" where
  "sample_make_gzip files src name =
     (let p = (case name of None \<Rightarrow> ''tmp/extra.tgz'' | Some n \<Rightarrow> ''tmp/'' @ n @ ''.tgz'')
      in Some (p, files(p \<mapsto> File (''Z'' @ src))))"

definition world0 :: world where
  "world0 =
     \<lparr>fs = [''hw'' \<mapsto> Dir [''a_submit'', ''b.gz''], ''hw/a_submit'' \<mapsto> Dir [''main.c''],
             ''hw/a_submit/main.c'' \<mapsto> File ''M'', ''hw/b.gz'' \<mapsto> File ''B'',
             ''x'' \<mapsto> File ''X'', ''x.gz'' \<mapsto> File ''G'', ''extras'' \<mapsto> Dir []],
      containers = [],
      guess_encoding = (\<lambda>p. if p = ''x.gz'' then Some ''gzip'' else None),
      utils_make_gzip = sample_make_gzip,
      gunzip = Some,
      list_error = (\<lambda>cs. None),
      remove_error = (\<lambda>i. None),
      create_id = (\<lambda>cs a. Some (''id_'' @ ca_name a)),
      put_fails = (\<lambda>i d. False)\<rparr>"

definition args0 :: "string option \<Rightarrow> args" where
  "args0 x = \<lparr>args_folder = ''hw'', args_image = ''img'', args_extra = x\<rparr>"

definition other_b :: container where
  "other_b = \<lparr>c_Id = ''7'', c_Names = [''/hw_b''], c_Image = ''other'', c_Archives = []\<rparr>"

text \<open>A packer that names its archive like a temporary file, whatever it is asked to pack.\<close>

definition mktemp_make_gzip ::
  "(string \<Rightarrow> node option) \<Rightarrow> string \<Rightarrow> string option \<Rightarrow> (string \<times> (string \<Rightarrow> node option)) option" where
  "mktemp_make_gzip files src name = Some (''tmp/tmpq3x9'', files(''tmp/tmpq3x9'' \<mapsto> File (''Z'' @ src)))"

text \<open>A container named for the directory of the sample folder, built from the image of
  the run, and a daemon that has it and refuses every removal.\<close>

definition same_a :: container where
  "same_a = \<lparr>c_Id = ''8'', c_Names = [''/hw_a''], c_Image = ''img'', c_Archives = []\<rparr>"

definition busy_world :: world where
  "busy_world = world0\<lparr>containers := [same_a], remove_error := (\<lambda>i. Some ''busy'')\<rparr>"

text \<open>A daemon that refuses to create containers, and a batch folder with the directories
  \<^verbatim>\<open>a_submit\<close>, \<^verbatim>\<open>a\<close> and \<^verbatim>\<open>c\<close>, the first two of which the sample packer
  packs into the same archive.\<close>

definition refusing_world :: world where
  "refusing_world = world0\<lparr>create_id := (\<lambda>cs a. None)\<rparr>"

definition twice_world :: world where
  "twice_world =
     world0\<lparr>fs := (fs world0)(''hw'' \<mapsto> Dir [''a_submit'', ''a'', ''c''],
                               ''hw/a'' \<mapsto> Dir [], ''hw/c'' \<mapsto> Dir [])\<rparr>"

text \<open>A daemon that refuses every copy into a container.\<close>

definition unwritable_world :: world where
  "unwritable_world = world0\<lparr>put_fails := (\<lambda>i d. True)\<rparr>"

section \<open>The derived names\<close>

text \<open>
  How the substitution behaves: where the matcher finds nothing the characters are kept,
  and a match that runs to the end of the string ends the scan.
\<close>

lemma re_sub_empty_skip:
  "(\<And>k. k < length u \<Longrightarrow> m (drop k u @ s) = None) \<Longrightarrow> re_sub_empty m (u @ s) = u @ re_sub_empty m s"
proof (induction u)
  case Nil
  then show ?case by simp
next
  case (Cons c u)
  have here: "m (c # u @ s) = None" using Cons.prems[of 0] by simp
  have rest: "\<And>k. k < length u \<Longrightarrow> m (drop k u @ s) = None"
    using Cons.prems[of "Suc k" for k] by simp
  show ?case using here Cons.IH[OF rest] by simp
qed

lemma re_sub_empty_whole:
  "m (c # cs) = Some (Suc (length cs)) \<Longrightarrow> re_sub_empty m (c # cs) = []"
  by simp

lemma match_submit_Some:
  "match_submit s = Some n \<Longrightarrow> n = 7 \<and> (s = ''_submit'' \<or> s = ''_submit'' @ [CHR 0x0A])"
  unfolding match_submit_def at_end_def
  by (metis append_Nil2 append_take_drop_id option.distinct(1) option.inject)

lemma match_submit_exact: "match_submit ''_submit'' = Some 7"
  by (simp add: match_submit_def at_end_def)

lemma match_extension_no_dot: "s = [] \<or> hd s \<noteq> CHR ''.'' \<Longrightarrow> match_extension s = None"
  by (cases s) (auto simp: match_extension_def)

lemma match_extension_dot:
  assumes "CHR ''/'' \<notin> set v" "v \<noteq> []"
  shows "match_extension (CHR ''.'' # v) = Some (Suc (length v))"
proof -
  have tw: "takeWhile (\<lambda>x. x \<noteq> CHR ''/'') v = v"
    using assms(1) by (auto simp: takeWhile_eq_all_conv)
  have "rev [1..<Suc (length v)] = length v # rev [1..<length v]"
    using assms(2) by (simp add: Suc_leI)
  then show ?thesis
    by (simp add: match_extension_def tw at_end_def)
qed

lemma match_extension_last_dot: "match_extension ''.'' = None"
  by (simp add: match_extension_def)

lemma basename_no_slash: "CHR ''/'' \<notin> set (basename p)"
  unfolding basename_def using set_takeWhileD by fastforce

lemma match_user_no_dot_prefix:
  assumes "x \<noteq> []" "CHR ''.'' \<notin> set x"
  shows "match_user (x @ CHR ''.'' # v) = None"
proof -
  have "match_submit (x @ CHR ''.'' # v) = None"
  proof (cases "match_submit (x @ CHR ''.'' # v)")
    case None
    then show ?thesis .
  next
    case (Some n)
    then have "x @ CHR ''.'' # v = ''_submit'' \<or> x @ CHR ''.'' # v = ''_submit'' @ [CHR 0x0A]"
      using match_submit_Some by blast
    then have "CHR ''.'' \<in> set (''_submit'' @ [CHR 0x0A])"
      by (metis in_set_conv_decomp set_append UnI1 append_Nil2)
    then show ?thesis by simp
  qed
  moreover have "match_extension (x @ CHR ''.'' # v) = None"
    using assms by (intro match_extension_no_dot) (cases x, auto)
  ultimately show ?thesis by (simp add: match_user_def)
qed

lemma match_user_dot:
  assumes "CHR ''/'' \<notin> set v" "v \<noteq> []"
  shows "match_user (CHR ''.'' # v) = Some (Suc (length v))"
  using match_extension_dot[OF assms] by (simp add: match_user_def match_submit_def)

lemma display_name_dot:
  assumes b: "basename file = u @ CHR ''.'' # v" and v: "v \<noteq> []" and u: "CHR ''.'' \<notin> set u"
  shows "display_name file = u"
proof -
  have "CHR ''/'' \<notin> set (u @ CHR ''.'' # v)" using basename_no_slash[of "file"] b by simp
  then have slash: "CHR ''/'' \<notin> set v" by simp
  have skip: "\<And>k. k < length u \<Longrightarrow> match_user (drop k u @ CHR ''.'' # v) = None"
  proof -
    fix k assume "k < length u"
    then have "drop k u \<noteq> []" by simp
    moreover have "CHR ''.'' \<notin> set (drop k u)" using u in_set_dropD by fastforce
    ultimately show "match_user (drop k u @ CHR ''.'' # v) = None"
      by (rule match_user_no_dot_prefix)
  qed
  have "re_sub_empty match_user (u @ CHR ''.'' # v) = u @ re_sub_empty match_user (CHR ''.'' # v)"
    using skip by (rule re_sub_empty_skip)
  also have "re_sub_empty match_user (CHR ''.'' # v) = []"
    using match_user_dot[OF slash v] by (rule re_sub_empty_whole)
  finally show ?thesis by (simp add: display_name_def b)
qed

lemma match_user_before_submit:
  assumes "x \<noteq> []" "CHR ''.'' \<notin> set x"
  shows "match_user (x @ ''_submit'') = None"
proof -
  have "match_submit (x @ ''_submit'') = None"
  proof (cases "match_submit (x @ ''_submit'')")
    case None
    then show ?thesis .
  next
    case (Some n)
    then consider "x @ ''_submit'' = ''_submit''" | "x @ ''_submit'' = ''_submit'' @ [CHR 0x0A]"
      using match_submit_Some by blast
    then show ?thesis
    proof cases
      case 1
      then show ?thesis using assms(1) by simp
    next
      case 2
      then have "last (x @ ''_submit'') = last (''_submit'' @ [CHR 0x0A])" by simp
      then show ?thesis by simp
    qed
  qed
  moreover have "match_extension (x @ ''_submit'') = None"
    using assms by (intro match_extension_no_dot) (cases x, auto)
  ultimately show ?thesis by (simp add: match_user_def)
qed

lemma display_name_submit:
  assumes b: "basename file = u @ ''_submit''" and u: "CHR ''.'' \<notin> set u"
  shows "display_name file = u"
proof -
  have skip: "\<And>k. k < length u \<Longrightarrow> match_user (drop k u @ ''_submit'') = None"
  proof -
    fix k assume "k < length u"
    then have "drop k u \<noteq> []" by simp
    moreover have "CHR ''.'' \<notin> set (drop k u)" using u in_set_dropD by fastforce
    ultimately show "match_user (drop k u @ ''_submit'') = None"
      by (rule match_user_before_submit)
  qed
  have "re_sub_empty match_user (u @ ''_submit'') = u @ re_sub_empty match_user ''_submit''"
    using skip by (rule re_sub_empty_skip)
  also have "re_sub_empty match_user ''_submit'' = []"
    by (simp add: match_user_def match_submit_def at_end_def)
  finally show ?thesis by (simp add: display_name_def b)
qed

lemma display_name_unchanged:
  assumes dot: "CHR ''.'' \<notin> set (butlast (basename file))"
      and s1: "\<not> suffix ''_submit'' (basename file)"
      and s2: "\<not> suffix (''_submit'' @ [CHR 0x0A]) (basename file)"
  shows "display_name file = basename file"
proof -
  let ?b = "basename file"
  have skip: "\<And>k. k < length ?b \<Longrightarrow> match_user (drop k ?b @ []) = None"
  proof -
    fix k assume k: "k < length ?b"
    have "match_submit (drop k ?b) = None"
    proof (cases "match_submit (drop k ?b)")
      case None
      then show ?thesis .
    next
      case (Some n)
      then have "drop k ?b = ''_submit'' \<or> drop k ?b = ''_submit'' @ [CHR 0x0A]"
        using match_submit_Some by blast
      moreover have "suffix (drop k ?b) ?b" by (rule suffix_drop)
      ultimately show ?thesis using s1 s2 by auto
    qed
    moreover have "match_extension (drop k ?b) = None"
    proof (cases "?b ! k = CHR ''.''")
      case True
      have "k = length ?b - 1"
      proof (rule ccontr)
        assume "k \<noteq> length ?b - 1"
        then have "k < length (butlast ?b)" using k by simp
        then have "butlast ?b ! k \<in> set (butlast ?b)" by (rule nth_mem)
        moreover have "butlast ?b ! k = ?b ! k"
          using \<open>k < length (butlast ?b)\<close> by (rule nth_butlast)
        ultimately show False using dot True by simp
      qed
      then have "drop k ?b = [?b ! k]"
        using k by (metis Cons_nth_drop_Suc Suc_diff_1 drop_all le_refl length_greater_0_conv list.size(3) not_less_zero)
      then show ?thesis using True by (simp add: match_extension_last_dot)
    next
      case False
      then have "hd (drop k ?b) \<noteq> CHR ''.''" using k by (simp add: hd_drop_conv_nth)
      then show ?thesis by (intro match_extension_no_dot) simp
    qed
    ultimately show "match_user (drop k ?b @ []) = None" by (simp add: match_user_def)
  qed
  have "re_sub_empty match_user (?b @ []) = ?b @ re_sub_empty match_user []"
    using skip by (rule re_sub_empty_skip)
  then show ?thesis by (simp add: display_name_def)
qed

text \<open>
  Claim C9. The lookup compares \<^verbatim>\<open>container_name[1:]\<close> with the target: the first
  character of every reported name is dropped, whatever it is. A reported name that is
  the target behind any one character matches, and the loop acts on it; a reported name
  that is the target itself does not match, and the loop passes it by (a target is never
  empty: it holds the underscore).
\<close>

theorem lookup_drops_first_character:
  "name_matches reported name = (drop 1 reported = name)
   \<and> name_matches (ch # container_name folder file) (container_name folder file)
   \<and> \<not> name_matches (container_name folder file) (container_name folder file)
   \<and> events_of (names_loop (container_name folder file) img c
        [ch # container_name folder file] w) \<noteq> []
   \<and> names_loop (container_name folder file) img c [container_name folder file] w
       = (Inr False, w, [])"
proof -
  let ?t = "container_name folder file"
  have ne: "?t \<noteq> []" by (simp add: container_name_def)
  have no: "\<not> name_matches ?t ?t"
  proof
    assume "name_matches ?t ?t"
    then have "length (drop 1 ?t) = length ?t" by (simp add: name_matches_def)
    then show False using ne by (cases ?t) simp_all
  qed
  have yes: "name_matches (ch # ?t) ?t" by (simp add: name_matches_def)
  have ev: "events_of (names_loop ?t img c [ch # ?t] w) \<noteq> []"
    using yes
    by (simp add: events_of_def cli_remove_container_def split: option.split)
  have pass: "names_loop ?t img c [?t] w = (Inr False, w, [])"
    using no by simp
  show ?thesis using no yes ev pass by (simp add: name_matches_def)
qed

section \<open>Composition of runs\<close>

lemma projections [simp]:
  "result_of (r, w, evs) = r" "world_of (r, w, evs) = w" "events_of (r, w, evs) = evs"
  by (simp_all add: result_of_def world_of_def events_of_def)

lemma io_bind_Inl: "m w = (Inl e, w1, evs) \<Longrightarrow> io_bind m f w = (Inl e, w1, evs)"
  by (simp add: io_bind_def)

lemma io_bind_Inr:
  "m w = (Inr x, w1, evs) \<Longrightarrow>
   io_bind m f w = (result_of (f x w1), world_of (f x w1), evs @ events_of (f x w1))"
  by (simp add: io_bind_def result_of_def world_of_def events_of_def split: prod.split)

lemma io_bind_Inr_nil: "m w = (Inr x, w1, []) \<Longrightarrow> io_bind m f w = f x w1"
  by (simp add: io_bind_def split: prod.split)

lemma io_invI:
  "(\<And>w. I w \<Longrightarrow> I (world_of (m w)) \<and> list_all P (events_of (m w))) \<Longrightarrow> io_inv I P m"
  by (simp add: io_inv_def)

lemma io_invD:
  "io_inv I P m \<Longrightarrow> I w \<Longrightarrow> I (world_of (m w)) \<and> list_all P (events_of (m w))"
  by (simp add: io_inv_def)

lemma io_inv_return: "io_inv I P (io_return x)"
  by (simp add: io_inv_def io_return_def)

lemma io_inv_emit: "P e \<Longrightarrow> io_inv I P (emit e)"
  by (simp add: io_inv_def emit_def)

lemma io_inv_bind:
  assumes m: "io_inv I P m" and f: "\<And>x. io_inv I P (f x)"
  shows "io_inv I P (io_bind m f)"
proof (rule io_invI)
  fix w assume w: "I w"
  obtain r w1 evs where mw: "m w = (r, w1, evs)" by (cases "m w")
  have m1: "I w1" "list_all P evs" using io_invD[OF m w] mw by simp_all
  show "I (world_of (io_bind m f w)) \<and> list_all P (events_of (io_bind m f w))"
  proof (cases r)
    case (Inl e)
    then show ?thesis using mw m1 by (simp add: io_bind_Inl)
  next
    case (Inr x)
    then have "io_bind m f w = (result_of (f x w1), world_of (f x w1), evs @ events_of (f x w1))"
      using mw by (simp add: io_bind_Inr)
    then show ?thesis using io_invD[OF f m1(1), of x] m1(2) by simp
  qed
qed

lemma io_inv_files_loop:
  assumes cc: "\<And>file. io_inv I P (create_container dirpath file img extra)"
  shows "io_inv I P (files_loop dirpath img extra files)"
proof (rule io_invI)
  fix w assume "I w"
  then show "I (world_of (files_loop dirpath img extra files w))
      \<and> list_all P (events_of (files_loop dirpath img extra files w))"
  proof (induction files arbitrary: w)
    case Nil
    then show ?case by simp
  next
    case (Cons f files)
    obtain r w1 evs where c: "create_container dirpath f img extra w = (r, w1, evs)"
      by (cases "create_container dirpath f img extra w")
    have c1: "I w1" "list_all P evs" using io_invD[OF cc Cons.prems, of f] c by simp_all
    show ?case
    proof (cases r)
      case (Inl e)
      then show ?thesis using c c1 by simp
    next
      case (Inr u)
      obtain r2 w2 evs2 where l: "files_loop dirpath img extra files w1 = (r2, w2, evs2)"
        by (cases "files_loop dirpath img extra files w1")
      then show ?thesis using Inr c c1 Cons.IH[OF c1(1)] by simp
    qed
  qed
qed

lemma io_inv_dirs_loop:
  assumes cc: "\<And>file. io_inv I P (create_container dirpath file img extra)"
      and mk: "\<And>src name. io_inv I P (make_gzip src name)"
  shows "io_inv I P (dirs_loop dirpath img extra cleanup dirs)"
proof (rule io_invI)
  fix w assume "I w"
  then show "I (world_of (dirs_loop dirpath img extra cleanup dirs w))
      \<and> list_all P (events_of (dirs_loop dirpath img extra cleanup dirs w))"
  proof (induction dirs arbitrary: w cleanup)
    case Nil
    then show ?case by simp
  next
    case (Cons d dirs)
    let ?step = "io_bind (make_gzip d (Some (folder_name d))) (\<lambda>p.
           io_bind (create_container dirpath p img extra) (\<lambda>u. io_return p))"
    have step: "io_inv I P ?step"
      by (intro io_inv_bind mk cc io_inv_return)
    obtain r w1 evs where c: "?step w = (r, w1, evs)" by (cases "?step w")
    have c1: "I w1" "list_all P evs" using io_invD[OF step Cons.prems] c by simp_all
    show ?case
    proof (cases r)
      case (Inl e)
      then show ?thesis using c c1 by simp
    next
      case (Inr p)
      obtain r2 w2 evs2 where l: "dirs_loop dirpath img extra (cleanup @ [p]) dirs w1 = (r2, w2, evs2)"
        by (cases "dirs_loop dirpath img extra (cleanup @ [p]) dirs w1")
      then show ?thesis using Inr c c1 Cons.IH[OF c1(1), of "cleanup @ [p]"] by simp
    qed
  qed
qed

lemma io_inv_cleanup_loop:
  assumes rm: "\<And>p. io_inv I P (os_remove p)"
  shows "io_inv I P (cleanup_loop cleanup)"
proof (rule io_invI)
  fix w assume "I w"
  then show "I (world_of (cleanup_loop cleanup w)) \<and> list_all P (events_of (cleanup_loop cleanup w))"
  proof (induction cleanup arbitrary: w)
    case Nil
    then show ?case by simp
  next
    case (Cons f cleanup)
    obtain r w1 evs where c: "os_remove f w = (r, w1, evs)" by (cases "os_remove f w")
    have c1: "I w1" "list_all P evs" using io_invD[OF rm Cons.prems, of f] c by simp_all
    show ?case
    proof (cases r)
      case (Inl e)
      then show ?thesis using c c1 by simp
    next
      case (Inr u)
      obtain r2 w2 evs2 where l: "cleanup_loop cleanup w1 = (r2, w2, evs2)"
        by (cases "cleanup_loop cleanup w1")
      then show ?thesis using Inr c c1 Cons.IH[OF c1(1)] by simp
    qed
  qed
qed

lemma io_inv_os_walk_next: "io_inv I P (os_walk_next path)"
  by (simp add: io_inv_def os_walk_next_def split: option.split node.split)

lemma io_inv_scan_and_run:
  assumes cc: "\<And>file. io_inv I P (create_container folder file img extra)"
      and mk: "\<And>src name. io_inv I P (make_gzip src name)"
      and rm: "\<And>p. io_inv I P (os_remove p)"
      and pr: "P (Print MsgCleaning)"
  shows "io_inv I P (scan_and_run folder img extra cleanup)"
proof (rule io_invI)
  fix w assume w: "I w"
  show "I (world_of (scan_and_run folder img extra cleanup w))
      \<and> list_all P (events_of (scan_and_run folder img extra cleanup w))"
  proof (cases "fs w folder")
    case None
    then show ?thesis using w by (simp add: scan_and_run_def os_walk_next_def io_bind_def)
  next
    case (Some nd)
    show ?thesis
    proof (cases nd)
      case (File b)
      then show ?thesis using w Some by (simp add: scan_and_run_def os_walk_next_def io_bind_def)
    next
      case (Dir names)
      let ?ds = "filter (\<lambda>n. os_path_isdir w (join folder n)) names"
      let ?fs = "filter (\<lambda>n. \<not> os_path_isdir w (join folder n)) names"
      let ?rest = "io_bind (dirs_loop folder img extra cleanup (map (join folder) ?ds)) (\<lambda>cleanup'.
         io_bind (files_loop folder img extra (map (join folder) ?fs)) (\<lambda>u.
         io_bind (emit (Print MsgCleaning)) (\<lambda>u. cleanup_loop cleanup')))"
      have eq: "scan_and_run folder img extra cleanup w = ?rest w"
      proof -
        have "os_walk_next folder w = (Inr (folder, ?ds, ?fs), w, [])"
          using Some Dir by (simp add: os_walk_next_def)
        then show ?thesis by (simp add: scan_and_run_def io_bind_Inr_nil)
      qed
      have "io_inv I P ?rest"
        by (intro io_inv_bind io_inv_dirs_loop io_inv_files_loop io_inv_cleanup_loop io_inv_emit
            cc mk rm pr)
      then show ?thesis using io_invD[of I P ?rest w] w eq by simp
    qed
  qed
qed


lemma io_inv_grade:
  assumes cc: "\<And>file extra. io_inv I P (create_container (args_folder a) file (args_image a) extra)"
      and mk: "\<And>src name. io_inv I P (make_gzip src name)"
      and rm: "\<And>p. io_inv I P (os_remove p)"
      and pr: "\<And>m. m \<in> {MsgInvalidFolder, MsgInvalidExtra, MsgCreatingTempGzip, MsgCleaning} \<Longrightarrow> P (Print m)"
  shows "io_inv I P (grade a)"
proof (rule io_invI)
  fix w assume w: "I w"
  have sr: "\<And>extra cleanup. io_inv I P (scan_and_run (args_folder a) (args_image a) extra cleanup)"
    by (intro io_inv_scan_and_run cc mk rm pr) simp
  have wr: "\<And>e. io_inv I P (io_bind (emit (Print MsgCreatingTempGzip)) (\<lambda>u.
                   io_bind (make_gzip e None) (\<lambda>p.
                   scan_and_run (args_folder a) (args_image a) (Some p) [p])))"
    by (intro io_inv_bind io_inv_emit mk sr pr) simp
  have e1: "io_inv I P (emit (Print MsgInvalidFolder))" by (intro io_inv_emit pr) simp
  have e2: "io_inv I P (emit (Print MsgInvalidExtra))" by (intro io_inv_emit pr) simp
  let ?goal = "\<lambda>r. I (world_of r) \<and> list_all P (events_of r)"
  show "?goal (grade a w)"
  proof (cases "os_path_isdir w (args_folder a)")
    case False
    then have "grade a w = emit (Print MsgInvalidFolder) w" by (simp add: grade_def)
    then show ?thesis using io_invD[OF e1 w] by simp
  next
    case True
    show ?thesis
    proof (cases "args_extra a")
      case None
      then have "grade a w = scan_and_run (args_folder a) (args_image a) None [] w"
        using True by (simp add: grade_def)
      then show ?thesis using io_invD[OF sr w] by simp
    next
      case (Some e)
      consider (nofile) "\<not> os_path_isfile w e"
        | (wrap) "os_path_isfile w e" "os_path_isdir w e \<or> guess_encoding w e \<noteq> Some ''gzip''"
        | (gz) "os_path_isfile w e" "\<not> (os_path_isdir w e \<or> guess_encoding w e \<noteq> Some ''gzip'')"
        by blast
      then show ?thesis
      proof cases
        case nofile
        then have "grade a w = emit (Print MsgInvalidExtra) w"
          using True Some by (simp add: grade_def)
        then show ?thesis using io_invD[OF e2 w] by simp
      next
        case wrap
        then have "grade a w = io_bind (emit (Print MsgCreatingTempGzip)) (\<lambda>u.
                   io_bind (make_gzip e None) (\<lambda>p.
                   scan_and_run (args_folder a) (args_image a) (Some p) [p])) w"
          using True Some by (simp add: grade_def)
        then show ?thesis using io_invD[OF wr w, of e] by simp
      next
        case gz
        then have "grade a w = scan_and_run (args_folder a) (args_image a) (Some e) [] w"
          using True Some by (simp add: grade_def)
        then show ?thesis using io_invD[OF sr w] by simp
      qed
    qed
  qed
qed

section \<open>The calls, case by case\<close>

lemma cli_create_container_cases:
  obtains (refused) "cli_create_container a w = (Inl (APIError ''create''), w, [CreateContainer a None])"
  | (created) i where "i \<notin> set (map c_Id (containers w))"
      "cli_create_container a w =
         (Inr i,
          w\<lparr>containers := \<lparr>c_Id = i, c_Names = [CHR ''/'' # ca_name a], c_Image = ca_image a,
                c_Archives = []\<rparr> # containers w\<rparr>,
          [CreateContainer a (Some i)])"
proof (cases "create_id w (containers w) a")
  case None
  then show ?thesis using refused by (simp add: cli_create_container_def)
next
  case (Some i)
  show ?thesis
  proof (cases "i \<in> set (map c_Id (containers w))")
    case True
    then show ?thesis using Some refused by (simp add: cli_create_container_def)
  next
    case False
    then show ?thesis using Some created[of i] by (simp add: cli_create_container_def)
  qed
qed

lemma gzip_read_cases:
  obtains (unread) "gzip_read p w = (Inl GzipError, w, [GzipRead p])"
  | (read) d where "gzip_read p w = (Inr d, w, [GzipRead p])"
proof -
  have "gzip_read p w = (Inl GzipError, w, [GzipRead p])
      \<or> (\<exists>d. gzip_read p w = (Inr d, w, [GzipRead p]))"
    by (simp add: gzip_read_def split: option.split node.split)
  then show ?thesis using that by blast
qed

lemma cli_put_archive_cases:
  obtains (unput) "cli_put_archive i path d w = (Inl (APIError ''put''), w, [PutArchive i path d])"
  | (put) "cli_put_archive i path d w =
      (Inr (),
       w\<lparr>containers := map (\<lambda>c. if c_Id c = i then c\<lparr>c_Archives := c_Archives c @ [(path, d)]\<rparr>
                                 else c) (containers w)\<rparr>,
       [PutArchive i path d])"
  by (cases "put_fails w i d") (simp_all add: cli_put_archive_def)

lemma extract_into_cases:
  obtains (unread) "extract_into i file w = (Inl GzipError, w, [GzipRead file])"
  | (unput) d where
      "extract_into i file w = (Inl (APIError ''put''), w, [GzipRead file, PutArchive i ''/home/'' d])"
  | (extracted) d where
      "extract_into i file w =
         (Inr (),
          w\<lparr>containers := map (\<lambda>c. if c_Id c = i
                                    then c\<lparr>c_Archives := c_Archives c @ [(''/home/'', d)]\<rparr>
                                    else c) (containers w)\<rparr>,
          [GzipRead file, PutArchive i ''/home/'' d])"
proof (cases rule: gzip_read_cases[of "file" w])
  case unread
  then show ?thesis using that(1) by (simp add: extract_into_def io_bind_Inl)
next
  case (read d)
  show ?thesis
  proof (cases rule: cli_put_archive_cases[of i "''/home/''" d w])
    case unput
    then show ?thesis using read that(2)[of d] by (simp add: extract_into_def io_bind_Inr)
  next
    case put
    then show ?thesis using read that(3)[of d] by (simp add: extract_into_def io_bind_Inr)
  qed
qed

lemma cli_remove_container_cases:
  obtains (unremoved) m where "remove_error w i = Some m"
      "cli_remove_container i force w = (Inl (APIError m), w, [RemoveContainer i force])"
  | (removed) "remove_error w i = None"
      "cli_remove_container i force w =
         (Inr (), w\<lparr>containers := filter (\<lambda>c. c_Id c \<noteq> i) (containers w)\<rparr>,
          [RemoveContainer i force])"
  by (cases "remove_error w i") (simp_all add: cli_remove_container_def)

lemma names_loop_cases:
  obtains (nomatch) "\<forall>r \<in> set names. \<not> name_matches r name"
      "names_loop name img c names w = (Inr False, w, [])"
  | (mismatch) "\<exists>r \<in> set names. name_matches r name" "c_Image c \<noteq> img"
      "names_loop name img c names w = (Inr True, w, [Print (MsgSkipMismatch name)])"
  | (unremoved) m where "\<exists>r \<in> set names. name_matches r name" "c_Image c = img"
      "remove_error w (c_Id c) = Some m"
      "names_loop name img c names w =
         (Inr True, w, [Print MsgRemoving, RemoveContainer (c_Id c) True, Print (MsgRemoveFailed m)])"
  | (removed) "\<exists>r \<in> set names. name_matches r name" "c_Image c = img"
      "remove_error w (c_Id c) = None"
      "names_loop name img c names w =
         (Inr False, w\<lparr>containers := filter (\<lambda>d. c_Id d \<noteq> c_Id c) (containers w)\<rparr>,
          [Print MsgRemoving, RemoveContainer (c_Id c) True])"
proof (induction names)
  case Nil
  then show ?case by simp
next
  case (Cons r names)
  show ?case
  proof (cases "name_matches r name")
    case False
    show ?thesis
      by (rule Cons.IH) (use False Cons.prems in simp_all)
  next
    case True
    show ?thesis
    proof (cases "c_Image c = img")
      case False
      then show ?thesis using True Cons.prems(2) by simp
    next
      case same: True
      show ?thesis
      proof (cases rule: cli_remove_container_cases[of w "c_Id c" True])
        case (unremoved m)
        then show ?thesis using True same Cons.prems(3)[of m] by simp
      next
        case removed
        then show ?thesis using True same Cons.prems(4) by simp
      qed
    qed
  qed
qed

section \<open>The lookup of an old container\<close>

lemma triple_eta [simp]: "(result_of x, world_of x, events_of x) = x"
  by (cases x) simp

lemma containers_loop_Cons:
  "containers_loop name img (c # cs) w =
     (if result_of (names_loop name img c (c_Names c) w) = Inr False
      then (result_of (containers_loop name img cs (world_of (names_loop name img c (c_Names c) w))),
            world_of (containers_loop name img cs (world_of (names_loop name img c (c_Names c) w))),
            events_of (names_loop name img c (c_Names c) w)
              @ events_of (containers_loop name img cs (world_of (names_loop name img c (c_Names c) w))))
      else names_loop name img c (c_Names c) w)"
  by (cases "names_loop name img c (c_Names c) w")
     (auto simp: split: sum.splits bool.splits prod.splits)

lemma containers_loop_skip:
  "\<forall>d \<in> set before. \<forall>r \<in> set (c_Names d). \<not> name_matches r name \<Longrightarrow>
   containers_loop name img (before @ rest) w = containers_loop name img rest w"
proof (induction before)
  case Nil
  then show ?case by simp
next
  case (Cons d before)
  have "names_loop name img d (c_Names d) w = (Inr False, w, [])"
    by (cases rule: names_loop_cases[where names = "c_Names d" and name = name and c = d and img = img and w = w]) (use Cons.prems in auto)
  then show ?case using Cons by (simp add: containers_loop_Cons del: containers_loop.simps)
qed

lemma containers_loop_result:
  "\<exists>b. result_of (containers_loop name img cs w) = Inr b"
proof (induction cs arbitrary: w)
  case Nil
  then show ?case by (intro exI[of _ False]) simp
next
  case (Cons c cs)
  show ?case
    by (cases rule: names_loop_cases[where names = "c_Names c" and name = name and c = c and img = img and w = w])
       (use Cons.IH in \<open>auto simp add: containers_loop_Cons simp del: containers_loop.simps\<close>)
qed

lemma lookup_event_mono:
  "lookup_event name img cs e \<Longrightarrow> set cs \<subseteq> set cs' \<Longrightarrow> lookup_event name img cs' e"
  by (auto simp: lookup_event_def split: event.splits message.splits)

lemma containers_loop_events:
  "list_all (lookup_event name img cs) (events_of (containers_loop name img cs w))"
proof (induction cs arbitrary: w)
  case Nil
  then show ?case by simp
next
  case (Cons c cs)
  have tl: "\<And>w1. list_all (lookup_event name img (c # cs)) (events_of (containers_loop name img cs w1))"
    using Cons.IH lookup_event_mono[of name img cs _ "c # cs"]
    by (fastforce simp: list_all_iff)
  have hd1: "lookup_event name img (c # cs) (Print MsgRemoving)"
    and hd2: "lookup_event name img (c # cs) (Print (MsgSkipMismatch name))"
    and hd3: "\<And>m. lookup_event name img (c # cs) (Print (MsgRemoveFailed m))"
    by (simp_all add: lookup_event_def)
  have hd4: "(\<exists>r \<in> set (c_Names c). name_matches r name) \<Longrightarrow> c_Image c = img
      \<Longrightarrow> lookup_event name img (c # cs) (RemoveContainer (c_Id c) True)"
    by (auto simp add: lookup_event_def)
  show ?case
  proof (cases rule: names_loop_cases[where names = "c_Names c" and name = name and c = c and img = img and w = w])
    case nomatch
    then show ?thesis using tl by (simp add: containers_loop_Cons del: containers_loop.simps)
  next
    case mismatch
    then show ?thesis using hd2 by (simp add: containers_loop_Cons del: containers_loop.simps)
  next
    case (unremoved m)
    then show ?thesis using hd1 hd3 hd4
      by (simp add: containers_loop_Cons del: containers_loop.simps)
  next
    case removed
    then show ?thesis using tl hd1 hd4
      by (simp add: containers_loop_Cons del: containers_loop.simps)
  qed
qed

lemma containers_loop_world:
  "\<exists>Q. world_of (containers_loop name img cs w) = w\<lparr>containers := filter Q (containers w)\<rparr>
       \<and> (\<forall>d. \<not> Q d \<longrightarrow> (\<exists>k \<in> set cs. c_Id k = c_Id d \<and> c_Image k = img))"
proof (induction cs arbitrary: w)
  case Nil
  have "w = w\<lparr>containers := filter (\<lambda>d. True) (containers w)\<rparr>" by simp
  then show ?case by (metis containers_loop.simps(1) projections(2))
next
  case (Cons c cs)
  show ?case
  proof (cases rule: names_loop_cases[where names = "c_Names c" and name = name and c = c and img = img and w = w])
    case nomatch
    obtain Q where Q: "world_of (containers_loop name img cs w) = w\<lparr>containers := filter Q (containers w)\<rparr>"
        "\<forall>d. \<not> Q d \<longrightarrow> (\<exists>k \<in> set cs. c_Id k = c_Id d \<and> c_Image k = img)"
      using Cons.IH[of w] by blast
    show ?thesis
      by (rule exI[of _ Q]) (use nomatch Q in \<open>simp add: containers_loop_Cons del: containers_loop.simps\<close>)
  next
    case mismatch
    have "w = w\<lparr>containers := filter (\<lambda>d. True) (containers w)\<rparr>" by simp
    then show ?thesis
      by (intro exI[of _ "\<lambda>d. True"]) (use mismatch in \<open>simp add: containers_loop_Cons del: containers_loop.simps\<close>)
  next
    case (unremoved m)
    have "w = w\<lparr>containers := filter (\<lambda>d. True) (containers w)\<rparr>" by simp
    then show ?thesis
      by (intro exI[of _ "\<lambda>d. True"]) (use unremoved in \<open>simp add: containers_loop_Cons del: containers_loop.simps\<close>)
  next
    case removed
    let ?w1 = "w\<lparr>containers := filter (\<lambda>d. c_Id d \<noteq> c_Id c) (containers w)\<rparr>"
    obtain Q where Q: "world_of (containers_loop name img cs ?w1) = ?w1\<lparr>containers := filter Q (containers ?w1)\<rparr>"
        "\<forall>d. \<not> Q d \<longrightarrow> (\<exists>k \<in> set cs. c_Id k = c_Id d \<and> c_Image k = img)"
      using Cons.IH[of ?w1] by blast
    show ?thesis
      by (rule exI[of _ "\<lambda>d. c_Id d \<noteq> c_Id c \<and> Q d"])
         (use removed Q in \<open>auto simp add: containers_loop_Cons simp del: containers_loop.simps\<close>)
  qed
qed

lemma containers_loop_keeps:
  assumes "keeps c w" "c_Image c \<noteq> img" "set cs \<subseteq> set (containers w)"
  shows "keeps c (world_of (containers_loop name img cs w))"
proof -
  obtain Q where Q: "world_of (containers_loop name img cs w) = w\<lparr>containers := filter Q (containers w)\<rparr>"
      "\<forall>d. \<not> Q d \<longrightarrow> (\<exists>k \<in> set cs. c_Id k = c_Id d \<and> c_Image k = img)"
    using containers_loop_world by blast
  have "Q c"
  proof (rule ccontr)
    assume "\<not> Q c"
    then obtain k where k: "k \<in> set cs" "c_Id k = c_Id c" "c_Image k = img" using Q(2) by blast
    then have "k \<in> set (containers w)" using assms(3) by blast
    then have "k = c" using k(2) assms(1) by (auto simp: keeps_def distinct_map inj_on_def)
    then show False using k(3) assms(2) by simp
  qed
  then show ?thesis using assms(1) Q(1) by (simp add: keeps_def distinct_map_filter)
qed

section \<open>One call of \<^verbatim>\<open>create_container\<close>\<close>

lemma create_and_extract_cases:
  obtains (refused)
      "create_and_extract name file img extra w =
         (Inl (APIError ''create''), w, [CreateContainer (new_container_args img name) None])"
  | (failed) e i w' evs d d' where
      "create_and_extract name file img extra w = (Inl e, w', evs)"
      "prefix evs (extraction_trace name file img extra i d d')" "evs \<noteq> []"
      "e = GzipError \<or> e = APIError ''put''"
  | (finished) i w' d d' where
      "create_and_extract name file img extra w =
         (Inr (), w', extraction_trace name file img extra i d d')"
proof (cases rule: cli_create_container_cases[where a = "new_container_args img name" and w = w])
  case refused
  then show ?thesis using that(1) by (simp add: create_and_extract_def io_bind_def)
next
  case (created i)
  then obtain w2 where
    w2: "cli_create_container (new_container_args img name) w
           = (Inr i, w2, [CreateContainer (new_container_args img name) (Some i)])"
    by blast
  note defs = create_and_extract_def io_bind_def emit_def io_return_def extraction_trace_def
  show ?thesis
  proof (cases rule: extract_into_cases[where i = i and ?file = "file" and w = w2])
    case unread
    show ?thesis
      by (rule that(2)[where i = i and d = "[]" and d' = "[]"],
          simp add: defs w2 unread, simp_all add: defs)
  next
    case (unput d)
    show ?thesis
      by (rule that(2)[where i = i and d = d and d' = "[]"],
          simp add: defs w2 unput, simp_all add: defs)
  next
    case (extracted d)
    then obtain w3 where
      w3: "extract_into i file w2 = (Inr (), w3, [GzipRead file, PutArchive i ''/home/'' d])"
      by blast
    show ?thesis
    proof (cases extra)
      case None
      show ?thesis
        by (rule that(3)[where i = i and d = d and d' = "[]"])
           (simp add: defs w2 w3 None)
    next
      case (Some x)
      show ?thesis
      proof (cases rule: extract_into_cases[where i = i and ?file = x and w = w3])
        case unread
        show ?thesis
          by (rule that(2)[where i = i and d = d and d' = "[]"],
              simp add: defs w2 w3 Some unread, simp_all add: defs Some)
      next
        case (unput d')
        show ?thesis
          by (rule that(2)[where i = i and d = d and d' = d'],
              simp add: defs w2 w3 Some unput, simp_all add: defs Some)
      next
        case ex2: (extracted d')
        show ?thesis
          by (rule that(3)[where i = i and d = d and d' = d'])
             (simp add: defs w2 w3 Some ex2)
      qed
    qed
  qed
qed

lemma create_container_unlisted:
  "list_error w (containers w) = Some m \<Longrightarrow>
   create_container folder file img extra w
     = (Inl (APIError m), w, [Print (MsgUser (display_name file)), ListContainers True])"
  by (simp add: create_container_def io_bind_def emit_def cli_containers_def)

lemma create_container_unfold:
  "list_error w (containers w) = None \<Longrightarrow>
   create_container folder file img extra w =
     (if result_of (containers_loop (container_name folder file) img (containers w) w) = Inr True
      then (Inr (), world_of (containers_loop (container_name folder file) img (containers w) w),
            Print (MsgUser (display_name file)) # ListContainers True
              # events_of (containers_loop (container_name folder file) img (containers w) w))
      else (result_of (create_and_extract (container_name folder file) file img extra
                (world_of (containers_loop (container_name folder file) img (containers w) w))),
            world_of (create_and_extract (container_name folder file) file img extra
                (world_of (containers_loop (container_name folder file) img (containers w) w))),
            Print (MsgUser (display_name file)) # ListContainers True
              # events_of (containers_loop (container_name folder file) img (containers w) w)
              @ events_of (create_and_extract (container_name folder file) file img extra
                  (world_of (containers_loop (container_name folder file) img (containers w) w)))))"
proof -
  assume listed: "list_error w (containers w) = None"
  obtain b w1 L where L: "containers_loop (container_name folder file) img (containers w) w = (Inr b, w1, L)"
    using containers_loop_result[of "container_name folder file" img "containers w" w]
    by (cases "containers_loop (container_name folder file) img (containers w) w") auto
  obtain r w2 T where T: "create_and_extract (container_name folder file) file img extra w1 = (r, w2, T)"
    by (cases "create_and_extract (container_name folder file) file img extra w1")
  show ?thesis
    by (simp add: create_container_def io_bind_def emit_def cli_containers_def io_return_def
        listed L T)
qed

lemma lookup_event_submission:
  "lookup_event (container_name folder file) img cs e \<Longrightarrow> submission_event folder file img extra e"
  by (auto simp: lookup_event_def submission_event_def split: event.splits message.splits)

lemma extraction_trace_submission:
  "e \<in> set (extraction_trace (container_name folder file) file img extra i d d')
   \<Longrightarrow> submission_event folder file img extra e"
  by (auto simp: extraction_trace_def submission_event_def split: option.splits)

lemma create_and_extract_events:
  "list_all (submission_event folder file img extra)
     (events_of (create_and_extract (container_name folder file) file img extra w))"
proof (cases rule: create_and_extract_cases[where name = "container_name folder file"
      and ?file = "file" and img = img and extra = extra and w = w])
  case refused
  then show ?thesis by (simp add: submission_event_def)
next
  case (failed e i w' evs d d')
  then show ?thesis
    using extraction_trace_submission set_mono_prefix
    by (fastforce simp: list_all_iff)
next
  case (finished i w' d d')
  then show ?thesis using extraction_trace_submission by (simp add: list_all_iff)
qed

lemma create_container_events:
  "list_all (submission_event folder file img extra)
     (events_of (create_container folder file img extra w))"
proof -
  have 1: "list_all (submission_event folder file img extra)
      (events_of (containers_loop (container_name folder file) img (containers w) w))"
    using containers_loop_events[of "container_name folder file" img "containers w" w]
      lookup_event_submission
    by (fastforce simp: list_all_iff)
  have 2: "submission_event folder file img extra (Print (MsgUser (display_name file)))"
      "submission_event folder file img extra (ListContainers True)"
    by (simp_all add: submission_event_def)
  show ?thesis
  proof (cases "list_error w (containers w)")
    case None
    then show ?thesis
      using 1 2 create_and_extract_events by (simp add: create_container_unfold)
  next
    case (Some m)
    then show ?thesis using 2 by (simp add: create_container_unlisted)
  qed
qed

section \<open>A container of another image stays\<close>

lemma map_c_Id_put:
  "map c_Id (map (\<lambda>k. if c_Id k = i then k\<lparr>c_Archives := c_Archives k @ [(p, d)]\<rparr> else k) cs)
     = map c_Id cs"
  by (induction cs) auto

lemma keeps_put:
  assumes k: "keeps c w" and ne: "c_Id c \<noteq> i"
  shows "keeps c (w\<lparr>containers :=
      map (\<lambda>k. if c_Id k = i then k\<lparr>c_Archives := c_Archives k @ [(p, d)]\<rparr> else k)
        (containers w)\<rparr>)"
proof -
  let ?g = "\<lambda>k. if c_Id k = i then k\<lparr>c_Archives := c_Archives k @ [(p, d)]\<rparr> else k"
  have ids: "map c_Id (map ?g (containers w)) = map c_Id (containers w)"
    by (rule map_c_Id_put)
  have "c \<in> set (containers w)" using k by (simp add: keeps_def)
  then have "?g c \<in> ?g ` set (containers w)" by (rule imageI)
  moreover have "?g c = c" using ne by simp
  ultimately have mem: "c \<in> set (map ?g (containers w))" by (simp only: set_map)
  have "distinct (map c_Id (containers w))" using k by (simp add: keeps_def)
  then have dist: "distinct (map c_Id (map ?g (containers w)))" by (simp only: ids)
  have sel: "containers (w\<lparr>containers := map ?g (containers w)\<rparr>) = map ?g (containers w)"
    by simp
  show ?thesis unfolding keeps_def sel using mem dist by (rule conjI)
qed

lemma io_inv_extract_into:
  "io_inv (\<lambda>w. keeps c w \<and> c_Id c \<noteq> i) (\<lambda>e. True) (extract_into i p)"
proof (rule io_invI)
  fix w assume w: "keeps c w \<and> c_Id c \<noteq> i"
  show "(keeps c (world_of (extract_into i p w)) \<and> c_Id c \<noteq> i)
      \<and> list_all (\<lambda>e. True) (events_of (extract_into i p w))"
  proof (cases rule: extract_into_cases[where i = i and ?file = p and w = w])
    case unread
    then show ?thesis using w by (simp add: list_all_iff)
  next
    case (unput d)
    then show ?thesis using w by (simp add: list_all_iff)
  next
    case (extracted d)
    have "keeps c (world_of (extract_into i p w))"
      unfolding extracted projections using w by (intro keeps_put) simp_all
    then show ?thesis using w by (simp add: list_all_iff)
  qed
qed

lemma create_and_extract_keeps:
  assumes "keeps c w"
  shows "keeps c (world_of (create_and_extract name file img extra w))"
proof (cases rule: cli_create_container_cases[where a = "new_container_args img name" and w = w])
  case refused
  then show ?thesis using assms by (simp add: create_and_extract_def io_bind_def)
next
  case (created i)
  let ?w2 = "w\<lparr>containers := \<lparr>c_Id = i, c_Names = [CHR ''/'' # ca_name (new_container_args img name)],
      c_Image = ca_image (new_container_args img name), c_Archives = []\<rparr> # containers w\<rparr>"
  let ?J = "\<lambda>w. keeps c w \<and> c_Id c \<noteq> i"
  let ?rest = "io_bind (emit (Print MsgExtracting)) (\<lambda>u.
     io_bind (extract_into i file) (\<lambda>u.
     io_bind (case extra of
                None \<Rightarrow> io_return ()
              | Some x \<Rightarrow>
                  io_bind (emit (Print MsgExtractingExtra)) (\<lambda>u. extract_into i x)) (\<lambda>u.
     emit (Print MsgCreated))))"
  have J2: "?J ?w2" using assms created(1) by (auto simp: keeps_def)
  have ex: "io_inv ?J (\<lambda>e. True) (case extra of
                None \<Rightarrow> io_return ()
              | Some x \<Rightarrow>
                  io_bind (emit (Print MsgExtractingExtra)) (\<lambda>u. extract_into i x))"
    by (cases extra) (auto intro!: io_inv_return io_inv_bind io_inv_emit io_inv_extract_into)
  have "io_inv ?J (\<lambda>e. True) ?rest"
    by (intro io_inv_bind io_inv_emit io_inv_extract_into ex) simp_all
  then have "?J (world_of (?rest ?w2))" using J2 io_invD by blast
  moreover have "world_of (create_and_extract name file img extra w) = world_of (?rest ?w2)"
    using created(2) by (simp add: create_and_extract_def io_bind_Inr)
  ultimately show ?thesis by simp
qed

lemma create_container_keeps:
  assumes "keeps c w" "c_Image c \<noteq> img"
  shows "keeps c (world_of (create_container folder file img extra w))"
proof -
  have "keeps c (world_of (containers_loop (container_name folder file) img (containers w) w))"
    using assms by (intro containers_loop_keeps) simp_all
  then show ?thesis
    using create_and_extract_keeps assms(1)
    by (cases "list_error w (containers w)")
       (simp_all add: create_container_unfold create_container_unlisted)
qed

lemma io_inv_keeps_grade:
  assumes "c_Image c \<noteq> args_image a"
  shows "io_inv (keeps c) (\<lambda>e. True) (grade a)"
proof (rule io_inv_grade)
  show "io_inv (keeps c) (\<lambda>e. True) (create_container (args_folder a) f (args_image a) x)"
    for f x
    using create_container_keeps[OF _ assms] by (intro io_invI) (simp add: list_all_iff)
  show "io_inv (keeps c) (\<lambda>e. True) (make_gzip src name)" for src name
    by (intro io_invI) (auto simp: make_gzip_def keeps_def list_all_iff split: option.splits)
  show "io_inv (keeps c) (\<lambda>e. True) (os_remove p)" for p
    by (intro io_invI) (auto simp: os_remove_def keeps_def list_all_iff split: option.splits node.splits)
qed simp

lemma runs_keeps:
  assumes "c_Image c \<noteq> args_image a" "keeps c w"
  shows "keeps c (runs n a w)"
  using assms(2)
proof (induction n arbitrary: w)
  case 0
  then show ?case by simp
next
  case (Suc n)
  have "keeps c (world_of (grade a w))"
    using io_invD[OF io_inv_keeps_grade[OF assms(1)] Suc.prems] by simp
  then show ?case using Suc.IH by simp
qed

lemma containers_loop_returns:
  assumes "c \<in> set cs" "\<exists>r \<in> set (c_Names c). name_matches r name" "c_Image c \<noteq> img"
  shows "result_of (containers_loop name img cs w) = Inr True"
  using assms(1)
proof (induction cs arbitrary: w)
  case Nil
  then show ?case by simp
next
  case (Cons k cs)
  show ?case
  proof (cases rule: names_loop_cases[where names = "c_Names k" and name = name and c = k and img = img and w = w])
    case nomatch
    then have "c \<in> set cs" using Cons.prems assms(2) by auto
    then show ?thesis using Cons.IH nomatch by (simp add: containers_loop_Cons del: containers_loop.simps)
  next
    case mismatch
    then show ?thesis by (simp add: containers_loop_Cons del: containers_loop.simps)
  next
    case (unremoved m)
    then show ?thesis by (simp add: containers_loop_Cons del: containers_loop.simps)
  next
    case removed
    then have "c \<in> set cs" using Cons.prems assms(3) by auto
    then show ?thesis using Cons.IH removed by (simp add: containers_loop_Cons del: containers_loop.simps)
  qed
qed

lemma containers_loop_last:
  "result_of (containers_loop name img cs w) = Inr True \<Longrightarrow>
   events_of (containers_loop name img cs w) \<noteq> [] \<and>
   (last (events_of (containers_loop name img cs w)) = Print (MsgSkipMismatch name)
    \<or> (\<exists>m. last (events_of (containers_loop name img cs w)) = Print (MsgRemoveFailed m)))"
proof (induction cs arbitrary: w)
  case Nil
  then show ?case by simp
next
  case (Cons k cs)
  show ?case
  proof (cases rule: names_loop_cases[where names = "c_Names k" and name = name and c = k and img = img and w = w])
    case nomatch
    then show ?thesis using Cons by (simp add: containers_loop_Cons del: containers_loop.simps)
  next
    case mismatch
    then show ?thesis by (simp add: containers_loop_Cons del: containers_loop.simps)
  next
    case (unremoved m)
    then show ?thesis by (simp add: containers_loop_Cons del: containers_loop.simps)
  next
    case removed
    then show ?thesis using Cons by (simp add: containers_loop_Cons del: containers_loop.simps)
  qed
qed

lemma concat_map_Nil: "(\<And>e. e \<in> set evs \<Longrightarrow> f e = []) \<Longrightarrow> concat (map f evs) = []"
  by (induction evs) auto

lemma lookup_event_quiet:
  assumes "lookup_event name img cs e"
  shows "created_of e = []" "put_of e = []" "made_of e = []" "removed_of e = []"
    "packed_of e = []" "user_of e = []"
  using assms by (auto simp: lookup_event_def split: event.splits message.splits)

lemma lookup_event_removal:
  assumes "lookup_event name img cs e" "i \<in> set (removal_of e)"
  shows "\<exists>d \<in> set cs. c_Id d = i \<and> c_Image d = img"
  using assms by (auto simp: lookup_event_def split: event.splits message.splits)

lemma in_concat_map: "x \<in> set (concat (map f evs)) \<Longrightarrow> \<exists>e \<in> set evs. x \<in> set (f e)"
  by auto

lemma first_occurrence_split:
  assumes "c \<in> set cs"
  shows "\<exists>after. cs = takeWhile (\<lambda>d. d \<noteq> c) cs @ c # after"
proof -
  let ?d = "dropWhile (\<lambda>d. d \<noteq> c) cs"
  have ne: "?d \<noteq> []" using assms by (simp add: dropWhile_eq_Nil_conv)
  then have "\<not> (hd ?d \<noteq> c)" by (rule hd_dropWhile)
  then obtain t where t: "?d = c # t" using ne by (cases ?d) simp_all
  have "takeWhile (\<lambda>d. d \<noteq> c) cs @ ?d = cs" by (rule takeWhile_dropWhile_id)
  then have "takeWhile (\<lambda>d. d \<noteq> c) cs @ c # t = cs" unfolding t .
  then have "cs = takeWhile (\<lambda>d. d \<noteq> c) cs @ c # t" by (rule sym)
  then show ?thesis by (rule exI)
qed

section \<open>Collisions with an existing container\<close>

text \<open>
  Claim C1. Let a listed container \<open>c\<close> have a name that the lookup takes for the name
  derived for a submission, and an image other than the one the run was called with
  (ids of listed containers are pairwise different, as the daemon guarantees). Then
  \<^verbatim>\<open>create_container\<close> asks for no new container and copies no archive, never asks
  for the removal of \<open>c\<close>, leaves \<open>c\<close> listed as it was and lists no container it did
  not list before. When the daemon answers the listing, so that the lookup takes place, the
  call returns to the batch without an exception and its last printed line says that the
  assignment is skipped; when moreover no container listed before \<open>c\<close> has a matching
  name, the call changes nothing at all and prints the mismatch line. However often the
  whole script is run again with that image, \<open>c\<close> stays listed, so all of this holds
  again in every later run.
\<close>

theorem other_image_container_is_kept:
  assumes c: "c \<in> set (containers w)"
      and dist: "distinct (map c_Id (containers w))"
      and named: "\<exists>r \<in> set (c_Names c). name_matches r (container_name folder file)"
      and other: "c_Image c \<noteq> img"
      and img: "args_image a = img"
  shows "(list_error w (containers w) = None
           \<longrightarrow> result_of (create_container folder file img extra w) = Inr ())
    \<and> creations (events_of (create_container folder file img extra w)) = []
    \<and> put_targets (events_of (create_container folder file img extra w)) = []
    \<and> c_Id c \<notin> set (removals (events_of (create_container folder file img extra w)))
    \<and> c \<in> set (containers (world_of (create_container folder file img extra w)))
    \<and> set (containers (world_of (create_container folder file img extra w)))
         \<subseteq> set (containers w)
    \<and> (list_error w (containers w) = None
         \<longrightarrow> last (events_of (create_container folder file img extra w))
               = Print (MsgSkipMismatch (container_name folder file))
             \<or> (\<exists>m. last (events_of (create_container folder file img extra w))
                      = Print (MsgRemoveFailed m)))
    \<and> (list_error w (containers w) = None
         \<and> (\<forall>d \<in> set (takeWhile (\<lambda>d. d \<noteq> c) (containers w)).
                \<forall>r \<in> set (c_Names d). \<not> name_matches r (container_name folder file))
         \<longrightarrow> create_container folder file img extra w
               = (Inr (), w, [Print (MsgUser (display_name file)), ListContainers True,
                              Print (MsgSkipMismatch (container_name folder file))]))
    \<and> (\<forall>n. c \<in> set (containers (runs n a w))
              \<and> distinct (map c_Id (containers (runs n a w))))"
proof -
  let ?name = "container_name folder file"
  let ?L = "containers_loop ?name img (containers w) w"
  let ?R = "create_container folder file img extra w"
  have ret: "result_of ?L = Inr True"
    using c named other by (rule containers_loop_returns)
  have R: "list_error w (containers w) = None \<Longrightarrow> ?R = (Inr (), world_of ?L,
      Print (MsgUser (display_name file)) # ListContainers True # events_of ?L)"
    using ret by (simp add: create_container_unfold)
  have U: "list_error w (containers w) \<noteq> None \<Longrightarrow> world_of ?R = w
      \<and> events_of ?R = [Print (MsgUser (display_name file)), ListContainers True]"
    by (auto simp: create_container_unlisted)
  have L: "list_all (lookup_event ?name img (containers w)) (events_of ?L)"
    by (rule containers_loop_events)
  have Lset: "\<And>e. e \<in> set (events_of ?L) \<Longrightarrow> lookup_event ?name img (containers w) e"
    using L by (simp add: list_all_iff)
  have k: "keeps c w" using c dist by (simp add: keeps_def)
  have 1: "list_error w (containers w) = None \<longrightarrow> result_of ?R = Inr ()" using R by simp
  have 2: "creations (events_of ?R) = []"
  proof (cases "list_error w (containers w) = None")
    case True
    then show ?thesis
      using concat_map_Nil[of "events_of ?L" created_of] lookup_event_quiet(1)[OF Lset]
      by (simp add: R creations_def)
  next
    case False
    then show ?thesis using U by (simp add: creations_def)
  qed
  have 3: "put_targets (events_of ?R) = []"
  proof (cases "list_error w (containers w) = None")
    case True
    then show ?thesis
      using concat_map_Nil[of "events_of ?L" put_of] lookup_event_quiet(2)[OF Lset]
      by (simp add: R put_targets_def)
  next
    case False
    then show ?thesis using U by (simp add: put_targets_def)
  qed
  have 4: "c_Id c \<notin> set (removals (events_of ?R))"
  proof (cases "list_error w (containers w) = None")
    case True
    show ?thesis
    proof
      assume "c_Id c \<in> set (removals (events_of ?R))"
      then have "c_Id c \<in> set (concat (map removal_of (events_of ?L)))"
        using True by (simp add: R removals_def)
      then obtain e where e: "e \<in> set (events_of ?L)" "c_Id c \<in> set (removal_of e)"
        using in_concat_map[of "c_Id c" removal_of "events_of ?L"] by blast
      then obtain d where d: "d \<in> set (containers w)" "c_Id d = c_Id c" "c_Image d = img"
        using lookup_event_removal[OF Lset[OF e(1)] e(2)] by blast
      then have "d = c" using c dist by (auto simp: distinct_map inj_on_def)
      then show False using d(3) other by simp
    qed
  next
    case False
    then show ?thesis using U by (simp add: removals_def)
  qed
  have kept: "keeps c (world_of ?R)" using k other by (rule create_container_keeps)
  then have 5: "c \<in> set (containers (world_of ?R))" by (simp add: keeps_def)
  have 6: "set (containers (world_of ?R)) \<subseteq> set (containers w)"
  proof (cases "list_error w (containers w) = None")
    case True
    obtain Q where "world_of ?L = w\<lparr>containers := filter Q (containers w)\<rparr>"
      using containers_loop_world by blast
    then show ?thesis using True by (auto simp add: R)
  next
    case False
    then show ?thesis using U by simp
  qed
  have 7: "list_error w (containers w) = None
      \<longrightarrow> last (events_of ?R) = Print (MsgSkipMismatch ?name)
          \<or> (\<exists>m. last (events_of ?R) = Print (MsgRemoveFailed m))"
    using containers_loop_last[OF ret] by (simp add: R)
  have 8: "list_error w (containers w) = None
         \<and> (\<forall>d \<in> set (takeWhile (\<lambda>d. d \<noteq> c) (containers w)).
            \<forall>r \<in> set (c_Names d). \<not> name_matches r ?name)
         \<longrightarrow> ?R = (Inr (), w, [Print (MsgUser (display_name file)), ListContainers True,
                              Print (MsgSkipMismatch ?name)])"
  proof
    assume both: "list_error w (containers w) = None
         \<and> (\<forall>d \<in> set (takeWhile (\<lambda>d. d \<noteq> c) (containers w)).
            \<forall>r \<in> set (c_Names d). \<not> name_matches r ?name)"
    then have listed: "list_error w (containers w) = None"
      and first: "\<forall>d \<in> set (takeWhile (\<lambda>d. d \<noteq> c) (containers w)).
            \<forall>r \<in> set (c_Names d). \<not> name_matches r ?name"
      by simp_all
    obtain after where split: "containers w = takeWhile (\<lambda>d. d \<noteq> c) (containers w) @ c # after"
      using first_occurrence_split[OF c] by blast
    have "?L = containers_loop ?name img (c # after) w"
      using containers_loop_skip[OF first, of img "c # after" w] split by simp
    moreover have "names_loop ?name img c (c_Names c) w = (Inr True, w, [Print (MsgSkipMismatch ?name)])"
      by (cases rule: names_loop_cases[where names = "c_Names c" and name = ?name and c = c and img = img and w = w])
         (use named other in auto)
    ultimately have "?L = (Inr True, w, [Print (MsgSkipMismatch ?name)])"
      by (simp add: containers_loop_Cons del: containers_loop.simps)
    then show "?R = (Inr (), w, [Print (MsgUser (display_name file)), ListContainers True,
                              Print (MsgSkipMismatch ?name)])"
      using listed by (simp add: R)
  qed
  have 9: "\<forall>n. c \<in> set (containers (runs n a w)) \<and> distinct (map c_Id (containers (runs n a w)))"
    using runs_keeps[of c a w] other img k by (simp add: keeps_def)
  show ?thesis by (intro conjI 1 2 3 4 5 6 7 8 9)
qed

theorem other_image_container_is_kept_witness:
  "create_container ''hw'' ''hw/b.gz'' ''img'' None (world0\<lparr>containers := [other_b]\<rparr>)
     = (Inr (), world0\<lparr>containers := [other_b]\<rparr>,
        [Print (MsgUser (display_name ''hw/b.gz'')), ListContainers True,
         Print (MsgSkipMismatch (container_name ''hw'' ''hw/b.gz''))])
   \<and> other_b \<in> set (containers (runs 3 (args0 None) (world0\<lparr>containers := [other_b]\<rparr>)))
   \<and> creations (events_of (create_container ''hw'' ''hw/b.gz'' ''img'' None
         (world0\<lparr>containers := [other_b]\<rparr>))) = []"
proof -
  let ?w = "world0\<lparr>containers := [other_b]\<rparr>"
  have h0: "list_error ?w (containers ?w) = None" by (simp add: world0_def)
  have h1: "other_b \<in> set (containers ?w)" by simp
  have h2: "distinct (map c_Id (containers ?w))" by simp
  have h3: "\<exists>r \<in> set (c_Names other_b). name_matches r (container_name ''hw'' ''hw/b.gz'')"
    by code_simp
  have h4: "c_Image other_b \<noteq> ''img''" by code_simp
  have h5: "args_image (args0 None) = ''img''" by code_simp
  have h6: "\<forall>d \<in> set (takeWhile (\<lambda>d. d \<noteq> other_b) (containers ?w)).
      \<forall>r \<in> set (c_Names d). \<not> name_matches r (container_name ''hw'' ''hw/b.gz'')"
    by simp
  note T = other_image_container_is_kept[OF h1 h2 h3 h4 h5, where extra = None]
  have a: "create_container ''hw'' ''hw/b.gz'' ''img'' None ?w
     = (Inr (), ?w,
        [Print (MsgUser (display_name ''hw/b.gz'')), ListContainers True,
         Print (MsgSkipMismatch (container_name ''hw'' ''hw/b.gz''))])"
    using T h0 h6 by blast
  have b: "other_b \<in> set (containers (runs 3 (args0 None) ?w))" using T by blast
  have c: "creations (events_of (create_container ''hw'' ''hw/b.gz'' ''img'' None ?w)) = []"
    using T by blast
  show ?thesis using a b c by (intro conjI)
qed

section \<open>How a container is created\<close>

lemma submission_event_batch:
  "submission_event folder file img extra e \<Longrightarrow> batch_event folder img e"
  by (auto simp: submission_event_def batch_event_def split: event.splits)

lemma io_inv_mono:
  "io_inv I P m \<Longrightarrow> (\<And>e. P e \<Longrightarrow> P' e) \<Longrightarrow> io_inv I P' m"
  by (auto simp: io_inv_def list_all_iff)

lemma io_inv_create_container:
  "io_inv (\<lambda>w. True) (submission_event folder file img extra) (create_container folder file img extra)"
  by (simp add: io_inv_def create_container_events)

lemma io_inv_batch_grade:
  "io_inv (\<lambda>w. True) (batch_event (args_folder a) (args_image a)) (grade a)"
proof (rule io_inv_grade)
  show "io_inv (\<lambda>w. True) (batch_event (args_folder a) (args_image a))
      (create_container (args_folder a) f (args_image a) x)" for f x
    using io_inv_create_container submission_event_batch by (rule io_inv_mono)
  show "io_inv (\<lambda>w. True) (batch_event (args_folder a) (args_image a)) (make_gzip src name)"
    for src name
    by (simp add: io_inv_def make_gzip_def batch_event_def split: option.split)
  show "io_inv (\<lambda>w. True) (batch_event (args_folder a) (args_image a)) (os_remove p)" for p
    by (simp add: io_inv_def os_remove_def batch_event_def split: option.split node.split)
qed (simp add: batch_event_def)

lemma mem_limit_64m: "mem_limit_bytes ''64m'' = Some (64 * 1024 * 1024)"
  by (simp add: mem_limit_bytes_def)

text \<open>
  Claim C6. Every request for a new container, in one call and in a whole batch, carries
  the image of the run, a disabled network, the memory limit \<^verbatim>\<open>64m\<close> (64 MiB in the
  daemon's reading of the unit), a pseudo-terminal (\<^verbatim>\<open>tty=True\<close>), the command
  \<^verbatim>\<open>/bin/bash\<close> and the name derived for a submission of the batch folder.
\<close>

theorem new_containers_are_confined:
  "(CreateContainer a r \<in> set (events_of (create_container folder file img extra w))
      \<longrightarrow> a = new_container_args img (container_name folder file))
   \<and> (CreateContainer a r \<in> set (events_of (grade args w))
      \<longrightarrow> ca_image a = args_image args \<and> ca_network_disabled a
          \<and> ca_mem_limit a = ''64m'' \<and> mem_limit_bytes (ca_mem_limit a) = Some (64 * 1024 * 1024)
          \<and> ca_tty a \<and> ca_detach a \<and> ca_command a = ''/bin/bash''
          \<and> (\<exists>file. ca_name a = container_name (args_folder args) file))"
proof (intro conjI impI)
  assume "CreateContainer a r \<in> set (events_of (create_container folder file img extra w))"
  then have "submission_event folder file img extra (CreateContainer a r)"
    using create_container_events[of folder "file" img extra w] by (simp add: list_all_iff)
  then show "a = new_container_args img (container_name folder file)"
    by (simp add: submission_event_def)
next
  assume "CreateContainer a r \<in> set (events_of (grade args w))"
  moreover have "list_all (batch_event (args_folder args) (args_image args)) (events_of (grade args w))"
    using io_invD[OF io_inv_batch_grade[of args], of w] by simp
  ultimately have "batch_event (args_folder args) (args_image args) (CreateContainer a r)"
    by (simp add: list_all_iff)
  then obtain f where a: "a = new_container_args (args_image args) (container_name (args_folder args) f)"
    by (auto simp: batch_event_def)
  show "ca_image a = args_image args" "ca_network_disabled a" "ca_mem_limit a = ''64m''"
    "ca_tty a" "ca_detach a" "ca_command a = ''/bin/bash''"
    by (simp_all add: a new_container_args_def)
  show "mem_limit_bytes (ca_mem_limit a) = Some (64 * 1024 * 1024)"
    using mem_limit_64m by (simp add: a new_container_args_def)
  show "\<exists>file. ca_name a = container_name (args_folder args) file"
    by (rule exI[of _ f]) (simp add: a new_container_args_def)
qed

theorem new_containers_are_confined_witness:
  "CreateContainer (new_container_args ''img'' ''hw_a'') (Some ''id_hw_a'')
      \<in> set (events_of (grade (args0 None) world0))
   \<and> ca_image (new_container_args ''img'' ''hw_a'') = args_image (args0 None)
   \<and> ca_network_disabled (new_container_args ''img'' ''hw_a'')
   \<and> mem_limit_bytes (ca_mem_limit (new_container_args ''img'' ''hw_a'')) = Some (64 * 1024 * 1024)
   \<and> ca_tty (new_container_args ''img'' ''hw_a'')
   \<and> ca_command (new_container_args ''img'' ''hw_a'') = ''/bin/bash''"
proof -
  have h: "CreateContainer (new_container_args ''img'' ''hw_a'') (Some ''id_hw_a'')
      \<in> set (events_of (grade (args0 None) world0))"
    by code_simp
  show ?thesis
    using h new_containers_are_confined[where a = "new_container_args ''img'' ''hw_a''"
        and r = "Some ''id_hw_a''" and w = world0 and args = "args0 None"]
    by blast
qed

section \<open>What the events of a batch say\<close>

lemma projections_append [simp]:
  "made_paths (xs @ ys) = made_paths xs @ made_paths ys"
  "removed_paths (xs @ ys) = removed_paths xs @ removed_paths ys"
  "packed_dirs (xs @ ys) = packed_dirs xs @ packed_dirs ys"
  "users (xs @ ys) = users xs @ users ys"
  "creations (xs @ ys) = creations xs @ creations ys"
  by (simp_all add: made_paths_def removed_paths_def packed_dirs_def users_def creations_def)

lemma projections_Nil [simp]:
  "made_paths [] = []" "removed_paths [] = []" "packed_dirs [] = []" "users [] = []"
  "creations [] = []"
  by (simp_all add: made_paths_def removed_paths_def packed_dirs_def users_def creations_def)

lemma projections_Cons [simp]:
  "made_paths (e # xs) = made_of e @ made_paths xs"
  "removed_paths (e # xs) = removed_of e @ removed_paths xs"
  "packed_dirs (e # xs) = packed_of e @ packed_dirs xs"
  "users (e # xs) = user_of e @ users xs"
  "creations (e # xs) = created_of e @ creations xs"
  by (simp_all add: made_paths_def removed_paths_def packed_dirs_def users_def creations_def)

lemma submission_event_quiet:
  assumes "submission_event folder file img extra e"
  shows "made_of e = []" "removed_of e = []" "packed_of e = []"
  using assms by (auto simp: submission_event_def split: event.splits)

lemma create_container_quiet:
  "made_paths (events_of (create_container folder file img extra w)) = []"
  "removed_paths (events_of (create_container folder file img extra w)) = []"
  "packed_dirs (events_of (create_container folder file img extra w)) = []"
proof -
  have ev: "\<And>e. e \<in> set (events_of (create_container folder file img extra w))
      \<Longrightarrow> submission_event folder file img extra e"
    using create_container_events[of folder "file" img extra w] by (simp add: list_all_iff)
  show "made_paths (events_of (create_container folder file img extra w)) = []"
    unfolding made_paths_def by (rule concat_map_Nil) (rule submission_event_quiet(1)[OF ev])
  show "removed_paths (events_of (create_container folder file img extra w)) = []"
    unfolding removed_paths_def by (rule concat_map_Nil) (rule submission_event_quiet(2)[OF ev])
  show "packed_dirs (events_of (create_container folder file img extra w)) = []"
    unfolding packed_dirs_def by (rule concat_map_Nil) (rule submission_event_quiet(3)[OF ev])
qed

lemma extraction_trace_users: "users (extraction_trace name file img extra i d d') = []"
  by (simp add: extraction_trace_def split: option.split)

lemma users_prefix_Nil: "prefix xs ys \<Longrightarrow> users ys = [] \<Longrightarrow> users xs = []"
  by (auto simp: prefix_def)

lemma create_and_extract_users:
  "users (events_of (create_and_extract name file img extra w)) = []"
proof (cases rule: create_and_extract_cases[where name = name and ?file = "file" and img = img
      and extra = extra and w = w])
  case refused
  then show ?thesis by simp
next
  case (failed e i w' evs d d')
  then show ?thesis using users_prefix_Nil[OF failed(2) extraction_trace_users] by simp
next
  case (finished i w' d d')
  then show ?thesis by (simp add: extraction_trace_users)
qed

lemma containers_loop_users: "users (events_of (containers_loop name img cs w)) = []"
proof -
  have "\<And>e. e \<in> set (events_of (containers_loop name img cs w)) \<Longrightarrow> user_of e = []"
    using containers_loop_events[of name img cs w] lookup_event_quiet(6)
    by (fastforce simp: list_all_iff)
  then show ?thesis unfolding users_def by (rule concat_map_Nil)
qed

lemma create_container_users:
  "users (events_of (create_container folder file img extra w)) = [display_name file]"
  by (cases "list_error w (containers w)")
     (simp_all add: create_container_unfold create_container_unlisted containers_loop_users
        create_and_extract_users)

lemma triple_case:
  "(case x of (r, w, evs) \<Rightarrow> f r w evs) = f (result_of x) (world_of x) (events_of x)"
  by (cases x) simp

lemma cleanup_loop_events:
  "\<exists>k. events_of (cleanup_loop cleanup w) = map OsRemove (take k cleanup)"
proof (induction cleanup arbitrary: w)
  case Nil
  then show ?case by simp
next
  case (Cons f cleanup)
  show ?case
  proof (cases "fs w f")
    case None
    then have "events_of (cleanup_loop (f # cleanup) w) = map OsRemove (take 1 (f # cleanup))"
      by (simp add: os_remove_def)
    then show ?thesis by blast
  next
    case (Some nd)
    show ?thesis
    proof (cases nd)
      case (Dir names)
      then have "events_of (cleanup_loop (f # cleanup) w) = map OsRemove (take 1 (f # cleanup))"
        using Some by (simp add: os_remove_def)
      then show ?thesis by blast
    next
      case (File b)
      obtain k where k: "events_of (cleanup_loop cleanup (w\<lparr>fs := (fs w)(f := None)\<rparr>))
          = map OsRemove (take k cleanup)"
        using Cons.IH by blast
      have "events_of (cleanup_loop (f # cleanup) w) = map OsRemove (take (Suc k) (f # cleanup))"
        using Some File k by (simp add: os_remove_def triple_case)
      then show ?thesis by blast
    qed
  qed
qed

lemma cleanup_loop_done:
  "result_of (cleanup_loop cleanup w) = Inr () \<Longrightarrow>
   events_of (cleanup_loop cleanup w) = map OsRemove cleanup"
proof (induction cleanup arbitrary: w)
  case Nil
  then show ?case by simp
next
  case (Cons f cleanup)
  show ?case
  proof (cases "fs w f")
    case None
    then show ?thesis using Cons.prems by (simp add: os_remove_def)
  next
    case (Some nd)
    show ?thesis
    proof (cases nd)
      case (Dir names)
      then show ?thesis using Some Cons.prems by (simp add: os_remove_def)
    next
      case (File b)
      then show ?thesis using Some Cons by (simp add: os_remove_def triple_case)
    qed
  qed
qed

lemma projections_map_OsRemove [simp]:
  "removed_paths (map OsRemove ps) = ps" "made_paths (map OsRemove ps) = []"
  "packed_dirs (map OsRemove ps) = []" "users (map OsRemove ps) = []"
  by (induction ps) simp_all

section \<open>The loops of \<^verbatim>\<open>grade\<close>\<close>

lemma dirs_loop_Cons:
  "dirs_loop dirpath img extra cleanup (d # ds) w =
     (case utils_make_gzip w (fs w) d (Some (folder_name d)) of
        None \<Rightarrow> (Inl MakeGzipError, w, [MakeGzip d (Some (folder_name d)) None])
      | Some (p, files) \<Rightarrow>
          (case result_of (create_container dirpath p img extra (w\<lparr>fs := files\<rparr>)) of
             Inl e \<Rightarrow>
               (Inl e, world_of (create_container dirpath p img extra (w\<lparr>fs := files\<rparr>)),
                MakeGzip d (Some (folder_name d)) (Some p)
                  # events_of (create_container dirpath p img extra (w\<lparr>fs := files\<rparr>)))
           | Inr u \<Rightarrow>
               (result_of (dirs_loop dirpath img extra (cleanup @ [p]) ds
                   (world_of (create_container dirpath p img extra (w\<lparr>fs := files\<rparr>)))),
                world_of (dirs_loop dirpath img extra (cleanup @ [p]) ds
                   (world_of (create_container dirpath p img extra (w\<lparr>fs := files\<rparr>)))),
                MakeGzip d (Some (folder_name d)) (Some p)
                  # events_of (create_container dirpath p img extra (w\<lparr>fs := files\<rparr>))
                  @ events_of (dirs_loop dirpath img extra (cleanup @ [p]) ds
                      (world_of (create_container dirpath p img extra (w\<lparr>fs := files\<rparr>)))))))"
proof (cases "utils_make_gzip w (fs w) d (Some (folder_name d))")
  case None
  then show ?thesis by (simp add: io_bind_def make_gzip_def)
next
  case (Some pf)
  obtain p files where pf: "pf = (p, files)" by (cases pf)
  obtain r w1 evs where C: "create_container dirpath p img extra (w\<lparr>fs := files\<rparr>) = (r, w1, evs)"
    by (cases "create_container dirpath p img extra (w\<lparr>fs := files\<rparr>)")
  show ?thesis
  proof (cases r)
    case (Inl e)
    then show ?thesis using Some pf C by (simp add: io_bind_def make_gzip_def)
  next
    case (Inr u)
    then show ?thesis using Some pf C
      by (simp add: io_bind_def make_gzip_def io_return_def triple_case)
  qed
qed

lemma files_loop_Cons:
  "files_loop dirpath img extra (f # rest) w =
     (case result_of (create_container dirpath f img extra w) of
        Inl e \<Rightarrow> create_container dirpath f img extra w
      | Inr u \<Rightarrow>
          (result_of (files_loop dirpath img extra rest (world_of (create_container dirpath f img extra w))),
           world_of (files_loop dirpath img extra rest (world_of (create_container dirpath f img extra w))),
           events_of (create_container dirpath f img extra w)
             @ events_of (files_loop dirpath img extra rest
                 (world_of (create_container dirpath f img extra w)))))"
  by (cases "create_container dirpath f img extra w")
     (simp add: triple_case split: sum.split)

lemma create_container_raises:
  assumes "result_of (create_container folder file img extra w) = Inl e"
  shows "e \<noteq> OSError"
proof (cases "list_error w (containers w)")
  case (Some m)
  then show ?thesis using assms by (auto simp: create_container_unlisted)
next
  case None
  let ?L = "containers_loop (container_name folder file) img (containers w) w"
  let ?T = "create_and_extract (container_name folder file) file img extra (world_of ?L)"
  have nr: "result_of ?L \<noteq> Inr True"
    using assms None by (auto simp: create_container_unfold split: if_splits)
  then have T: "result_of ?T = Inl e"
    using assms None by (simp add: create_container_unfold)
  show ?thesis
  proof (cases rule: create_and_extract_cases[where name = "container_name folder file"
        and ?file = "file" and img = img and extra = extra and w = "world_of ?L"])
    case refused
    then show ?thesis using T by auto
  next
    case (failed e' i w' evs d d')
    then show ?thesis using T by auto
  next
    case (finished i w' d d')
    then show ?thesis using T by simp
  qed
qed

lemma dirs_loop_raises:
  "result_of (dirs_loop dirpath img extra cleanup dirs w) = Inl e \<Longrightarrow> e \<noteq> OSError"
proof (induction dirs arbitrary: w cleanup)
  case Nil
  then show ?case by simp
next
  case (Cons d dirs)
  show ?case
  proof (cases "utils_make_gzip w (fs w) d (Some (folder_name d))")
    case None
    then show ?thesis using Cons.prems by (simp add: dirs_loop_Cons del: dirs_loop.simps)
  next
    case (Some pf)
    obtain p files where pf: "pf = (p, files)" by (cases pf)
    let ?C = "create_container dirpath p img extra (w\<lparr>fs := files\<rparr>)"
    show ?thesis
    proof (cases "result_of ?C")
      case (Inl e')
      then have "e = e'" using Cons.prems Some pf by (simp add: dirs_loop_Cons del: dirs_loop.simps)
      then show ?thesis using create_container_raises[OF Inl] by simp
    next
      case (Inr u)
      then have "result_of (dirs_loop dirpath img extra (cleanup @ [p]) dirs (world_of ?C)) = Inl e"
        using Cons.prems Some pf by (simp add: dirs_loop_Cons del: dirs_loop.simps)
      then show ?thesis by (rule Cons.IH)
    qed
  qed
qed

lemma files_loop_raises:
  "result_of (files_loop dirpath img extra files w) = Inl e \<Longrightarrow> e \<noteq> OSError"
proof (induction files arbitrary: w)
  case Nil
  then show ?case by simp
next
  case (Cons f files)
  let ?C = "create_container dirpath f img extra w"
  show ?case
  proof (cases "result_of ?C")
    case (Inl e')
    then have "e = e'" using Cons.prems by (simp add: files_loop_Cons del: files_loop.simps)
    then show ?thesis using create_container_raises[OF Inl] by simp
  next
    case (Inr u)
    then have "result_of (files_loop dirpath img extra files (world_of ?C)) = Inl e"
      using Cons.prems by (simp add: files_loop_Cons del: files_loop.simps)
    then show ?thesis by (rule Cons.IH)
  qed
qed

lemma dirs_loop_quiet:
  "removed_paths (events_of (dirs_loop dirpath img extra cleanup dirs w)) = []"
  "wrapped (events_of (dirs_loop dirpath img extra cleanup dirs w)) = []"
proof -
  let ?P = "\<lambda>e. removed_of e = [] \<and> wrapped_of e = []"
  have cc: "\<And>f. io_inv (\<lambda>w. True) ?P (create_container dirpath f img extra)"
    by (rule io_inv_mono[OF io_inv_create_container])
       (auto simp: submission_event_def split: event.splits)
  have mk: "\<And>src name. io_inv (\<lambda>w. True) ?P (make_gzip src (Some name))"
    by (simp add: io_inv_def make_gzip_def split: option.split)
  have "io_inv (\<lambda>w. True) ?P (dirs_loop dirpath img extra cleanup dirs)"
  proof (rule io_invI)
    fix w :: world
    show "True \<and> list_all ?P (events_of (dirs_loop dirpath img extra cleanup dirs w))"
    proof (induction dirs arbitrary: w cleanup)
      case Nil
      then show ?case by simp
    next
      case (Cons d dirs)
      have 1: "list_all ?P (events_of (create_container dirpath p img extra w'))" for p w'
        using io_invD[OF cc[of p], of w'] by simp
      have 2: "list_all ?P (events_of (dirs_loop dirpath img extra cl dirs w'))" for cl w'
        using Cons.IH[of cl w'] by simp
      show ?case
        using 1 2 by (simp add: dirs_loop_Cons split: option.split sum.split del: dirs_loop.simps)
    qed
  qed
  then have all: "list_all ?P (events_of (dirs_loop dirpath img extra cleanup dirs w))"
    using io_invD by fastforce
  show "removed_paths (events_of (dirs_loop dirpath img extra cleanup dirs w)) = []"
    unfolding removed_paths_def using all by (intro concat_map_Nil) (simp add: list_all_iff)
  show "wrapped (events_of (dirs_loop dirpath img extra cleanup dirs w)) = []"
    unfolding wrapped_def using all by (intro concat_map_Nil) (simp add: list_all_iff)
qed

lemma files_loop_quiet:
  "removed_paths (events_of (files_loop dirpath img extra files w)) = []"
  "made_paths (events_of (files_loop dirpath img extra files w)) = []"
  "packed_dirs (events_of (files_loop dirpath img extra files w)) = []"
  "wrapped (events_of (files_loop dirpath img extra files w)) = []"
proof -
  let ?P = "\<lambda>e. removed_of e = [] \<and> made_of e = [] \<and> packed_of e = [] \<and> wrapped_of e = []"
  have cc: "\<And>f. io_inv (\<lambda>w. True) ?P (create_container dirpath f img extra)"
    by (rule io_inv_mono[OF io_inv_create_container])
       (auto simp: submission_event_def split: event.splits)
  have "io_inv (\<lambda>w. True) ?P (files_loop dirpath img extra files)"
    using cc by (rule io_inv_files_loop)
  then have all: "list_all ?P (events_of (files_loop dirpath img extra files w))"
    using io_invD by fastforce
  show "removed_paths (events_of (files_loop dirpath img extra files w)) = []"
    unfolding removed_paths_def using all by (intro concat_map_Nil) (simp add: list_all_iff)
  show "made_paths (events_of (files_loop dirpath img extra files w)) = []"
    unfolding made_paths_def using all by (intro concat_map_Nil) (simp add: list_all_iff)
  show "packed_dirs (events_of (files_loop dirpath img extra files w)) = []"
    unfolding packed_dirs_def using all by (intro concat_map_Nil) (simp add: list_all_iff)
  show "wrapped (events_of (files_loop dirpath img extra files w)) = []"
    unfolding wrapped_def using all by (intro concat_map_Nil) (simp add: list_all_iff)
qed

lemma dirs_loop_done:
  assumes "result_of (dirs_loop dirpath img extra cleanup dirs w) = Inr cl"
  shows "cl = cleanup @ made_paths (events_of (dirs_loop dirpath img extra cleanup dirs w))
    \<and> packed_dirs (events_of (dirs_loop dirpath img extra cleanup dirs w)) = dirs
    \<and> users (events_of (dirs_loop dirpath img extra cleanup dirs w))
        = map display_name (made_paths (events_of (dirs_loop dirpath img extra cleanup dirs w)))"
  using assms
proof (induction dirs arbitrary: w cleanup)
  case Nil
  then show ?case by simp
next
  case (Cons d dirs)
  show ?case
  proof (cases "utils_make_gzip w (fs w) d (Some (folder_name d))")
    case None
    then show ?thesis using Cons.prems by (simp add: dirs_loop_Cons del: dirs_loop.simps)
  next
    case (Some pf)
    obtain p files where pf: "pf = (p, files)" by (cases pf)
    let ?C = "create_container dirpath p img extra (w\<lparr>fs := files\<rparr>)"
    show ?thesis
    proof (cases "result_of ?C")
      case (Inl e')
      then show ?thesis using Cons.prems Some pf by (simp add: dirs_loop_Cons del: dirs_loop.simps)
    next
      case (Inr u)
      let ?D = "dirs_loop dirpath img extra (cleanup @ [p]) dirs (world_of ?C)"
      have "result_of ?D = Inr cl"
        using Cons.prems Some pf Inr by (simp add: dirs_loop_Cons del: dirs_loop.simps)
      then have IH: "cl = (cleanup @ [p]) @ made_paths (events_of ?D)"
          "packed_dirs (events_of ?D) = dirs"
          "users (events_of ?D) = map display_name (made_paths (events_of ?D))"
        using Cons.IH[of "cleanup @ [p]" "world_of ?C"] by simp_all
      show ?thesis
        using IH Some pf Inr create_container_quiet[of dirpath p img extra "w\<lparr>fs := files\<rparr>"]
          create_container_users[of dirpath p img extra "w\<lparr>fs := files\<rparr>"]
        by (simp add: dirs_loop_Cons del: dirs_loop.simps)
    qed
  qed
qed

lemma files_loop_done:
  "result_of (files_loop dirpath img extra files w) = Inr () \<Longrightarrow>
   users (events_of (files_loop dirpath img extra files w)) = map display_name files"
proof (induction files arbitrary: w)
  case Nil
  then show ?case by simp
next
  case (Cons f files)
  let ?C = "create_container dirpath f img extra w"
  show ?case
  proof (cases "result_of ?C")
    case (Inl e')
    then show ?thesis using Cons.prems by (simp add: files_loop_Cons del: files_loop.simps)
  next
    case (Inr u)
    then have "result_of (files_loop dirpath img extra files (world_of ?C)) = Inr ()"
      using Cons.prems by (simp add: files_loop_Cons del: files_loop.simps)
    then show ?thesis
      using Cons.IH Inr create_container_users[of dirpath f img extra w]
      by (simp add: files_loop_Cons del: files_loop.simps)
  qed
qed

lemma puts_follow_append: "puts_follow i x rest \<Longrightarrow> puts_follow i x (rest @ ys)"
proof -
  assume pf: "puts_follow i x rest"
  then have "length (take 6 rest) = 6" unfolding puts_follow_def by simp
  then have len: "6 \<le> length rest" by simp
  then have "take 6 (rest @ ys) = take 6 rest" by simp
  moreover have "(rest @ ys) ! 1 = rest ! 1" "(rest @ ys) ! 2 = rest ! 2" "(rest @ ys) ! 5 = rest ! 5"
    using len by (simp_all add: nth_append)
  ultimately show ?thesis using pf unfolding puts_follow_def by simp
qed

lemma extra_applied_append:
  "extra_applied x xs \<Longrightarrow> extra_applied x ys \<Longrightarrow> extra_applied x (xs @ ys)"
proof (induction xs)
  case Nil
  then show ?case by simp
next
  case (Cons e xs)
  then show ?case
    by (auto simp: puts_follow_append split: event.splits option.splits)
qed

lemma extra_applied_quiet:
  "(\<And>e. e \<in> set evs \<Longrightarrow> created_of e = []) \<Longrightarrow> extra_applied x evs"
proof (induction evs)
  case Nil
  then show ?case by simp
next
  case (Cons e evs)
  have "created_of e = []" using Cons.prems by simp
  then have "case e of CreateContainer a r \<Rightarrow> (case r of None \<Rightarrow> True | Some i \<Rightarrow> puts_follow i x evs)
       | _ \<Rightarrow> True"
    by (cases e) simp_all
  then show ?case using Cons by simp
qed

lemma extra_applied_trace:
  "extra_applied x (extraction_trace name file img (Some x) i d d')"
  by (simp add: extraction_trace_def puts_follow_def)

lemma create_container_extra_applied:
  assumes "result_of (create_container folder file img (Some x) w) = Inr ()"
  shows "extra_applied x (events_of (create_container folder file img (Some x) w))"
proof -
  let ?L = "containers_loop (container_name folder file) img (containers w) w"
  let ?T = "create_and_extract (container_name folder file) file img (Some x) (world_of ?L)"
  have L: "extra_applied x (events_of ?L)"
  proof (rule extra_applied_quiet)
    fix e assume "e \<in> set (events_of ?L)"
    then have "lookup_event (container_name folder file) img (containers w) e"
      using containers_loop_events[of "container_name folder file" img "containers w" w]
      by (simp add: list_all_iff)
    then show "created_of e = []" by (rule lookup_event_quiet(1))
  qed
  have listed: "list_error w (containers w) = None"
    using assms by (cases "list_error w (containers w)") (simp_all add: create_container_unlisted)
  show ?thesis
  proof (cases "result_of ?L = Inr True")
    case True
    then show ?thesis using L listed by (simp add: create_container_unfold)
  next
    case False
    then have T: "result_of ?T = Inr ()" using assms listed by (simp add: create_container_unfold)
    have "extra_applied x (events_of ?T)"
    proof (cases rule: create_and_extract_cases[where name = "container_name folder file"
        and ?file = "file" and img = img and extra = "Some x" and w = "world_of ?L"])
      case refused
      then show ?thesis using T by simp
    next
      case (failed e i w' evs d d')
      then show ?thesis using T by simp
    next
      case (finished i w' d d')
      then show ?thesis by (simp add: extra_applied_trace)
    qed
    then show ?thesis using L False listed
      by (simp add: create_container_unfold extra_applied_append)
  qed
qed

lemma dirs_loop_extra_applied:
  "result_of (dirs_loop dirpath img (Some x) cleanup dirs w) = Inr cl \<Longrightarrow>
   extra_applied x (events_of (dirs_loop dirpath img (Some x) cleanup dirs w))"
proof (induction dirs arbitrary: w cleanup)
  case Nil
  then show ?case by simp
next
  case (Cons d dirs)
  show ?case
  proof (cases "utils_make_gzip w (fs w) d (Some (folder_name d))")
    case None
    then show ?thesis using Cons.prems by (simp add: dirs_loop_Cons del: dirs_loop.simps)
  next
    case (Some pf)
    obtain p files where pf: "pf = (p, files)" by (cases pf)
    let ?C = "create_container dirpath p img (Some x) (w\<lparr>fs := files\<rparr>)"
    show ?thesis
    proof (cases "result_of ?C")
      case (Inl e')
      then show ?thesis using Cons.prems Some pf by (simp add: dirs_loop_Cons del: dirs_loop.simps)
    next
      case (Inr u)
      let ?D = "dirs_loop dirpath img (Some x) (cleanup @ [p]) dirs (world_of ?C)"
      have "result_of ?D = Inr cl"
        using Cons.prems Some pf Inr by (simp add: dirs_loop_Cons del: dirs_loop.simps)
      then have "extra_applied x (events_of ?D)" by (rule Cons.IH)
      moreover have "extra_applied x (events_of ?C)"
        using Inr by (intro create_container_extra_applied) simp
      ultimately show ?thesis
        using Some pf Inr
        by (simp add: dirs_loop_Cons extra_applied_append del: dirs_loop.simps)
    qed
  qed
qed

lemma files_loop_extra_applied:
  "result_of (files_loop dirpath img (Some x) files w) = Inr () \<Longrightarrow>
   extra_applied x (events_of (files_loop dirpath img (Some x) files w))"
proof (induction files arbitrary: w)
  case Nil
  then show ?case by simp
next
  case (Cons f files)
  let ?C = "create_container dirpath f img (Some x) w"
  show ?case
  proof (cases "result_of ?C")
    case (Inl e')
    then show ?thesis using Cons.prems by (simp add: files_loop_Cons del: files_loop.simps)
  next
    case (Inr u)
    then have "result_of (files_loop dirpath img (Some x) files (world_of ?C)) = Inr ()"
      using Cons.prems by (simp add: files_loop_Cons del: files_loop.simps)
    then have "extra_applied x (events_of (files_loop dirpath img (Some x) files (world_of ?C)))"
      by (rule Cons.IH)
    moreover have "extra_applied x (events_of ?C)"
      using Inr by (intro create_container_extra_applied) simp
    ultimately show ?thesis using Inr
      by (simp add: files_loop_Cons extra_applied_append del: files_loop.simps)
  qed
qed

lemma loops_no_cleaning:
  "Print MsgCleaning \<notin> set (events_of (dirs_loop dirpath img extra cleanup dirs w))"
  "Print MsgCleaning \<notin> set (events_of (files_loop dirpath img extra files w'))"
proof -
  let ?P = "\<lambda>e. e \<noteq> Print MsgCleaning"
  have cc: "\<And>f. io_inv (\<lambda>w. True) ?P (create_container dirpath f img extra)"
    by (rule io_inv_mono[OF io_inv_create_container])
       (auto simp: submission_event_def split: event.splits)
  have mk: "\<And>src name. io_inv (\<lambda>w. True) ?P (make_gzip src name)"
    by (simp add: io_inv_def make_gzip_def split: option.split)
  have "io_inv (\<lambda>w. True) ?P (dirs_loop dirpath img extra cleanup dirs)"
    using cc mk by (rule io_inv_dirs_loop)
  then have "list_all ?P (events_of (dirs_loop dirpath img extra cleanup dirs w))"
    using io_invD by fastforce
  then show "Print MsgCleaning \<notin> set (events_of (dirs_loop dirpath img extra cleanup dirs w))"
    by (auto simp: list_all_iff)
  have "io_inv (\<lambda>w. True) ?P (files_loop dirpath img extra files)"
    using cc by (rule io_inv_files_loop)
  then have "list_all ?P (events_of (files_loop dirpath img extra files w'))"
    using io_invD by fastforce
  then show "Print MsgCleaning \<notin> set (events_of (files_loop dirpath img extra files w'))"
    by (auto simp: list_all_iff)
qed

lemma scan_and_run_no_Dir:
  "\<forall>names. fs w folder \<noteq> Some (Dir names) \<Longrightarrow>
   scan_and_run folder img extra cleanup w = (Inl StopIteration, w, [])"
  by (simp add: scan_and_run_def os_walk_next_def io_bind_def split: option.split node.split)

lemma scan_and_run_Dir:
  fixes D F C
  defines "D \<equiv> \<lambda>folder img extra cleanup names w.
     dirs_loop folder img extra cleanup
       (map (join folder) (filter (\<lambda>n. os_path_isdir w (join folder n)) names)) w"
  defines "F \<equiv> \<lambda>folder img extra cleanup names w.
     files_loop folder img extra
       (map (join folder) (filter (\<lambda>n. \<not> os_path_isdir w (join folder n)) names))
       (world_of (D folder img extra cleanup names w))"
  defines "C \<equiv> \<lambda>folder img extra cleanup names w cl.
     cleanup_loop cl (world_of (F folder img extra cleanup names w))"
  assumes dir: "fs w folder = Some (Dir names)"
  shows "scan_and_run folder img extra cleanup w =
     (case result_of (D folder img extra cleanup names w) of
        Inl e \<Rightarrow>
          (Inl e, world_of (D folder img extra cleanup names w),
           events_of (D folder img extra cleanup names w))
      | Inr cl \<Rightarrow>
          (case result_of (F folder img extra cleanup names w) of
             Inl e \<Rightarrow>
               (Inl e, world_of (F folder img extra cleanup names w),
                events_of (D folder img extra cleanup names w)
                  @ events_of (F folder img extra cleanup names w))
           | Inr u \<Rightarrow>
               (result_of (C folder img extra cleanup names w cl),
                world_of (C folder img extra cleanup names w cl),
                events_of (D folder img extra cleanup names w)
                  @ events_of (F folder img extra cleanup names w)
                  @ Print MsgCleaning # events_of (C folder img extra cleanup names w cl))))"
proof -
  have walk: "os_walk_next folder w =
      (Inr (folder, filter (\<lambda>n. os_path_isdir w (join folder n)) names,
            filter (\<lambda>n. \<not> os_path_isdir w (join folder n)) names), w, [])"
    using dir by (simp add: os_walk_next_def)
  obtain r1 w1 e1 where d: "D folder img extra cleanup names w = (r1, w1, e1)"
    by (cases "D folder img extra cleanup names w")
  obtain r2 w2 e2 where f: "F folder img extra cleanup names w = (r2, w2, e2)"
    by (cases "F folder img extra cleanup names w")
  show ?thesis
  proof (cases r1)
    case (Inl e)
    then show ?thesis using d
      by (simp add: scan_and_run_def io_bind_def walk D_def)
  next
    case (Inr cl)
    show ?thesis
    proof (cases r2)
      case (Inl e)
      then show ?thesis using d f Inr
        by (simp add: scan_and_run_def io_bind_def walk D_def F_def)
    next
      case r: (Inr u)
      then show ?thesis using d f Inr
        by (simp add: scan_and_run_def io_bind_def walk emit_def
            D_def F_def C_def triple_case)
    qed
  qed
qed

lemma removed_paths_iff: "p \<in> set (removed_paths evs) \<longleftrightarrow> OsRemove p \<in> set evs"
proof (induction evs)
  case Nil
  then show ?case by simp
next
  case (Cons e evs)
  then show ?case by (cases e) auto
qed

lemma wrapped_simps [simp]:
  "wrapped (xs @ ys) = wrapped xs @ wrapped ys" "wrapped [] = []"
  "wrapped (e # xs) = wrapped_of e @ wrapped xs"
  by (simp_all add: wrapped_def)

lemma wrapped_map_OsRemove [simp]: "wrapped (map OsRemove ps) = []"
  by (induction ps) simp_all

lemma scan_and_run_summary:
  fixes folder img extra cleanup w
  defines "R \<equiv> scan_and_run folder img extra cleanup w"
  shows "prefix (removed_paths (events_of R)) (cleanup @ made_paths (events_of R))"
    and "wrapped (events_of R) = []"
    and "result_of R = Inl e \<Longrightarrow> e \<noteq> OSError \<Longrightarrow>
           removed_paths (events_of R) = [] \<and> Print MsgCleaning \<notin> set (events_of R)"
    and "result_of R = Inr () \<Longrightarrow>
           \<exists>names body. fs w folder = Some (Dir names)
             \<and> events_of R = body @ Print MsgCleaning # map OsRemove (cleanup @ made_paths body)
             \<and> removed_paths body = [] \<and> wrapped body = []
             \<and> Print MsgCleaning \<notin> set body
             \<and> packed_dirs body
                  = map (join folder) (filter (\<lambda>n. os_path_isdir w (join folder n)) names)
             \<and> users body
                  = map display_name (made_paths body)
                    @ map display_name
                        (map (join folder) (filter (\<lambda>n. \<not> os_path_isdir w (join folder n)) names))
             \<and> (\<forall>x. extra = Some x \<longrightarrow> extra_applied x body)"
proof -
  have all: "prefix (removed_paths (events_of R)) (cleanup @ made_paths (events_of R))
    \<and> wrapped (events_of R) = []
    \<and> (result_of R = Inl e \<longrightarrow> e \<noteq> OSError \<longrightarrow>
           removed_paths (events_of R) = [] \<and> Print MsgCleaning \<notin> set (events_of R))
    \<and> (result_of R = Inr () \<longrightarrow>
           (\<exists>names body. fs w folder = Some (Dir names)
             \<and> events_of R = body @ Print MsgCleaning # map OsRemove (cleanup @ made_paths body)
             \<and> removed_paths body = [] \<and> wrapped body = []
             \<and> Print MsgCleaning \<notin> set body
             \<and> packed_dirs body
                  = map (join folder) (filter (\<lambda>n. os_path_isdir w (join folder n)) names)
             \<and> users body
                  = map display_name (made_paths body)
                    @ map display_name
                        (map (join folder) (filter (\<lambda>n. \<not> os_path_isdir w (join folder n)) names))
             \<and> (\<forall>x. extra = Some x \<longrightarrow> extra_applied x body)))"
  proof (cases "\<exists>names. fs w folder = Some (Dir names)")
    case False
    then have "R = (Inl StopIteration, w, [])"
      unfolding R_def by (intro scan_and_run_no_Dir) simp
    then show ?thesis by simp
  next
    case True
    then obtain names where dir: "fs w folder = Some (Dir names)" by blast
    let ?ds = "map (join folder) (filter (\<lambda>n. os_path_isdir w (join folder n)) names)"
    let ?fs = "map (join folder) (filter (\<lambda>n. \<not> os_path_isdir w (join folder n)) names)"
    let ?D = "dirs_loop folder img extra cleanup ?ds w"
    let ?F = "files_loop folder img extra ?fs (world_of ?D)"
    note unfold = scan_and_run_Dir[OF dir, of img extra cleanup]
    note dq = dirs_loop_quiet[where dirpath = folder and img = img and extra = extra
        and cleanup = cleanup and dirs = ?ds and w = w]
    note fq = files_loop_quiet[where dirpath = folder and img = img and extra = extra
        and files = ?fs and w = "world_of ?D"]
    note nc = loops_no_cleaning(1)[where dirpath = folder and img = img and extra = extra
        and cleanup = cleanup and dirs = ?ds and w = w]
      loops_no_cleaning(2)[where dirpath = folder and img = img and extra = extra
        and files = ?fs and w' = "world_of ?D"]
    show ?thesis
    proof (cases "result_of ?D")
      case (Inl e1)
      then have R: "R = (Inl e1, world_of ?D, events_of ?D)"
        unfolding R_def by (simp add: unfold)
      show ?thesis using dq nc(1) by (simp add: R)
    next
      case (Inr cl)
      note dd = dirs_loop_done[OF Inr]
      show ?thesis
      proof (cases "result_of ?F")
        case (Inl e2)
        then have R: "R = (Inl e2, world_of ?F, events_of ?D @ events_of ?F)"
          unfolding R_def using Inr by (simp add: unfold)
        show ?thesis using dq fq nc by (simp add: R)
      next
        case r: (Inr u)
        let ?C = "cleanup_loop cl (world_of ?F)"
        let ?body = "events_of ?D @ events_of ?F"
        have R: "R = (result_of ?C, world_of ?C, ?body @ Print MsgCleaning # events_of ?C)"
          unfolding R_def using Inr r by (simp add: unfold)
        have cl: "cl = cleanup @ made_paths ?body" using dd fq by simp
        obtain k where k: "events_of ?C = map OsRemove (take k cl)"
          using cleanup_loop_events by blast
        have rem: "removed_paths (events_of R) = take k cl"
          using dq fq k by (simp add: R)
        have made: "cleanup @ made_paths (events_of R) = cl"
          using fq k cl by (simp add: R)
        have 1: "prefix (removed_paths (events_of R)) (cleanup @ made_paths (events_of R))"
          unfolding rem made by (rule take_is_prefix)
        have 2: "wrapped (events_of R) = []"
          using dq fq k by (simp add: R)
        have 3: "result_of R = Inl e \<longrightarrow> e \<noteq> OSError \<longrightarrow>
           removed_paths (events_of R) = [] \<and> Print MsgCleaning \<notin> set (events_of R)"
        proof (intro impI)
          assume "result_of R = Inl e" "e \<noteq> OSError"
          then have "result_of ?C = Inl e" by (simp add: R)
          moreover have "\<And>cs w'. result_of (cleanup_loop cs w') = Inl e \<Longrightarrow> e = OSError"
          proof -
            fix cs w'
            show "result_of (cleanup_loop cs w') = Inl e \<Longrightarrow> e = OSError"
              by (induction cs arbitrary: w')
                 (auto simp: os_remove_def triple_case split: option.splits node.splits)
          qed
          ultimately show "removed_paths (events_of R) = [] \<and> Print MsgCleaning \<notin> set (events_of R)"
            using \<open>e \<noteq> OSError\<close> by blast
        qed
        have 4: "result_of R = Inr () \<longrightarrow>
           (\<exists>names body. fs w folder = Some (Dir names)
             \<and> events_of R = body @ Print MsgCleaning # map OsRemove (cleanup @ made_paths body)
             \<and> removed_paths body = [] \<and> wrapped body = []
             \<and> Print MsgCleaning \<notin> set body
             \<and> packed_dirs body
                  = map (join folder) (filter (\<lambda>n. os_path_isdir w (join folder n)) names)
             \<and> users body
                  = map display_name (made_paths body)
                    @ map display_name
                        (map (join folder) (filter (\<lambda>n. \<not> os_path_isdir w (join folder n)) names))
             \<and> (\<forall>x. extra = Some x \<longrightarrow> extra_applied x body))"
        proof
          assume "result_of R = Inr ()"
          then have "result_of ?C = Inr ()" by (simp add: R)
          then have evC: "events_of ?C = map OsRemove cl" by (rule cleanup_loop_done)
          have b1: "events_of R = ?body @ Print MsgCleaning # map OsRemove (cleanup @ made_paths ?body)"
            using evC cl by (simp add: R)
          have b2: "removed_paths ?body = []" "wrapped ?body = []" "Print MsgCleaning \<notin> set ?body"
            using dq fq nc by simp_all
          have b3: "packed_dirs ?body = ?ds" using dd fq by simp
          have b4: "users ?body = map display_name (made_paths ?body) @ map display_name ?fs"
            using dd fq files_loop_done[of folder img extra ?fs "world_of ?D"] r by simp
          have b5: "\<forall>x. extra = Some x \<longrightarrow> extra_applied x ?body"
          proof (intro allI impI)
            fix x assume x: "extra = Some x"
            have "extra_applied x (events_of ?D)"
              using Inr unfolding x by (rule dirs_loop_extra_applied)
            moreover have "extra_applied x (events_of ?F)"
              using r unfolding x by (intro files_loop_extra_applied) simp
            ultimately show "extra_applied x ?body" by (rule extra_applied_append)
          qed
          show "\<exists>names body. fs w folder = Some (Dir names)
             \<and> events_of R = body @ Print MsgCleaning # map OsRemove (cleanup @ made_paths body)
             \<and> removed_paths body = [] \<and> wrapped body = []
             \<and> Print MsgCleaning \<notin> set body
             \<and> packed_dirs body
                  = map (join folder) (filter (\<lambda>n. os_path_isdir w (join folder n)) names)
             \<and> users body
                  = map display_name (made_paths body)
                    @ map display_name
                        (map (join folder) (filter (\<lambda>n. \<not> os_path_isdir w (join folder n)) names))
             \<and> (\<forall>x. extra = Some x \<longrightarrow> extra_applied x body)"
            using dir b1 b2 b3 b4 b5 by blast
        qed
        show ?thesis using 1 2 3 4 by blast
      qed
    qed
  qed
  show "prefix (removed_paths (events_of R)) (cleanup @ made_paths (events_of R))"
    using all by blast
  show "wrapped (events_of R) = []" using all by blast
  show "result_of R = Inl e \<Longrightarrow> e \<noteq> OSError \<Longrightarrow>
           removed_paths (events_of R) = [] \<and> Print MsgCleaning \<notin> set (events_of R)"
    using all by blast
  show "result_of R = Inr () \<Longrightarrow>
           \<exists>names body. fs w folder = Some (Dir names)
             \<and> events_of R = body @ Print MsgCleaning # map OsRemove (cleanup @ made_paths body)
             \<and> removed_paths body = [] \<and> wrapped body = []
             \<and> Print MsgCleaning \<notin> set body
             \<and> packed_dirs body
                  = map (join folder) (filter (\<lambda>n. os_path_isdir w (join folder n)) names)
             \<and> users body
                  = map display_name (made_paths body)
                    @ map display_name
                        (map (join folder) (filter (\<lambda>n. \<not> os_path_isdir w (join folder n)) names))
             \<and> (\<forall>x. extra = Some x \<longrightarrow> extra_applied x body)"
    using all by blast
qed

section \<open>The whole run\<close>

lemma isfile_not_isdir: "os_path_isfile w p \<Longrightarrow> \<not> os_path_isdir w p"
  by (auto simp: os_path_isfile_def os_path_isdir_def split: option.splits node.splits)

lemma grade_cases:
  obtains (no_folder) "\<not> os_path_isdir w (args_folder a)"
      "grade a w = (Inr (), w, [Print MsgInvalidFolder])"
  | (no_extra) e where "os_path_isdir w (args_folder a)" "args_extra a = Some e"
      "\<not> os_path_isfile w e" "grade a w = (Inr (), w, [Print MsgInvalidExtra])"
  | (plain) "os_path_isdir w (args_folder a)"
      "args_extra a = None \<or> (\<exists>e. args_extra a = Some e \<and> os_path_isfile w e
          \<and> guess_encoding w e = Some ''gzip'')"
      "grade a w = scan_and_run (args_folder a) (args_image a) (args_extra a) [] w"
  | (unwrapped) e where "os_path_isdir w (args_folder a)" "args_extra a = Some e"
      "os_path_isfile w e" "guess_encoding w e \<noteq> Some ''gzip''"
      "grade a w = (Inl MakeGzipError, w, [Print MsgCreatingTempGzip, MakeGzip e None None])"
  | (wrapped) e p files where "os_path_isdir w (args_folder a)" "args_extra a = Some e"
      "os_path_isfile w e" "guess_encoding w e \<noteq> Some ''gzip''"
      "utils_make_gzip w (fs w) e None = Some (p, files)"
      "grade a w =
         (result_of (scan_and_run (args_folder a) (args_image a) (Some p) [p] (w\<lparr>fs := files\<rparr>)),
          world_of (scan_and_run (args_folder a) (args_image a) (Some p) [p] (w\<lparr>fs := files\<rparr>)),
          Print MsgCreatingTempGzip # MakeGzip e None (Some p)
            # events_of (scan_and_run (args_folder a) (args_image a) (Some p) [p]
                (w\<lparr>fs := files\<rparr>)))"
proof (cases "os_path_isdir w (args_folder a)")
  case False
  then show ?thesis using no_folder by (simp add: grade_def emit_def)
next
  case True
  show ?thesis
  proof (cases "args_extra a")
    case None
    then show ?thesis using True plain by (simp add: grade_def)
  next
    case (Some e)
    show ?thesis
    proof (cases "os_path_isfile w e")
      case False
      then show ?thesis using True Some no_extra[of e] by (simp add: grade_def emit_def)
    next
      case isf: True
      then have nd: "\<not> os_path_isdir w e" by (rule isfile_not_isdir)
      show ?thesis
      proof (cases "guess_encoding w e = Some ''gzip''")
        case gz: True
        have "grade a w = scan_and_run (args_folder a) (args_image a) (args_extra a) [] w"
          using True Some isf nd gz by (simp add: grade_def)
        then show ?thesis using True Some isf gz plain by blast
      next
        case ngz: False
        show ?thesis
        proof (cases "utils_make_gzip w (fs w) e None")
          case None
          have "grade a w = (Inl MakeGzipError, w, [Print MsgCreatingTempGzip, MakeGzip e None None])"
            using True Some isf ngz None
            by (simp add: grade_def io_bind_def emit_def make_gzip_def)
          then show ?thesis using True Some isf ngz unwrapped[of e] by blast
        next
          case mk: (Some pf)
          obtain p files where pf: "pf = (p, files)" by (cases pf)
          have "grade a w =
             (result_of (scan_and_run (args_folder a) (args_image a) (Some p) [p] (w\<lparr>fs := files\<rparr>)),
              world_of (scan_and_run (args_folder a) (args_image a) (Some p) [p] (w\<lparr>fs := files\<rparr>)),
              Print MsgCreatingTempGzip # MakeGzip e None (Some p)
                # events_of (scan_and_run (args_folder a) (args_image a) (Some p) [p]
                    (w\<lparr>fs := files\<rparr>)))"
            using True Some isf ngz mk pf
            by (simp add: grade_def io_bind_def emit_def make_gzip_def triple_case)
          then show ?thesis using True Some isf ngz mk pf wrapped[of e p files] by blast
        qed
      qed
    qed
  qed
qed

lemma grade_removed_made:
  "prefix (removed_paths (events_of (grade a w))) (made_paths (events_of (grade a w)))"
  "result_of (grade a w) = Inr () \<Longrightarrow>
     removed_paths (events_of (grade a w)) = made_paths (events_of (grade a w))"
  "result_of (grade a w) = Inl e \<Longrightarrow> e \<noteq> OSError \<Longrightarrow>
     removed_paths (events_of (grade a w)) = [] \<and> Print MsgCleaning \<notin> set (events_of (grade a w))"
proof -
  have "prefix (removed_paths (events_of (grade a w))) (made_paths (events_of (grade a w)))
     \<and> (result_of (grade a w) = Inr () \<longrightarrow>
          removed_paths (events_of (grade a w)) = made_paths (events_of (grade a w)))
     \<and> (result_of (grade a w) = Inl e \<longrightarrow> e \<noteq> OSError \<longrightarrow>
          removed_paths (events_of (grade a w)) = []
          \<and> Print MsgCleaning \<notin> set (events_of (grade a w)))"
  proof (cases rule: grade_cases[of w a])
    case no_folder
    then show ?thesis by simp
  next
    case (no_extra e)
    then show ?thesis by simp
  next
    case plain
    let ?S = "scan_and_run (args_folder a) (args_image a) (args_extra a) [] w"
    have 1: "prefix (removed_paths (events_of ?S)) (made_paths (events_of ?S))"
      using scan_and_run_summary(1)[of "args_folder a" "args_image a" "args_extra a" "[]" w] by simp
    have 2: "result_of ?S = Inr () \<longrightarrow> removed_paths (events_of ?S) = made_paths (events_of ?S)"
    proof
      assume "result_of ?S = Inr ()"
      then obtain names body where
        "events_of ?S = body @ Print MsgCleaning # map OsRemove ([] @ made_paths body)"
        "removed_paths body = []"
        using scan_and_run_summary(4)[of "args_folder a" "args_image a" "args_extra a" "[]" w]
        by blast
      then show "removed_paths (events_of ?S) = made_paths (events_of ?S)" by simp
    qed
    have 3: "result_of ?S = Inl e \<longrightarrow> e \<noteq> OSError \<longrightarrow>
          removed_paths (events_of ?S) = [] \<and> Print MsgCleaning \<notin> set (events_of ?S)"
      using scan_and_run_summary(3)[of "args_folder a" "args_image a" "args_extra a" "[]" w e]
      by blast
    show ?thesis unfolding plain(3) using 1 2 3 by blast
  next
    case (unwrapped x)
    then show ?thesis by simp
  next
    case (wrapped x p files)
    let ?S = "scan_and_run (args_folder a) (args_image a) (Some p) [p] (w\<lparr>fs := files\<rparr>)"
    have 1: "prefix (removed_paths (events_of ?S)) ([p] @ made_paths (events_of ?S))"
      by (rule scan_and_run_summary(1))
    have 2: "result_of ?S = Inr () \<longrightarrow> removed_paths (events_of ?S) = p # made_paths (events_of ?S)"
    proof
      assume "result_of ?S = Inr ()"
      then obtain names body where
        "events_of ?S = body @ Print MsgCleaning # map OsRemove ([p] @ made_paths body)"
        "removed_paths body = []"
        using scan_and_run_summary(4)[of "args_folder a" "args_image a" "Some p" "[p]" "w\<lparr>fs := files\<rparr>"]
        by blast
      then show "removed_paths (events_of ?S) = p # made_paths (events_of ?S)" by simp
    qed
    have 3: "result_of ?S = Inl e \<longrightarrow> e \<noteq> OSError \<longrightarrow>
          removed_paths (events_of ?S) = [] \<and> Print MsgCleaning \<notin> set (events_of ?S)"
      using scan_and_run_summary(3)[of "args_folder a" "args_image a" "Some p" "[p]" "w\<lparr>fs := files\<rparr>" e]
      by blast
    show ?thesis unfolding wrapped(6) using 1 2 3 by simp
  qed
  then show "prefix (removed_paths (events_of (grade a w))) (made_paths (events_of (grade a w)))"
    "result_of (grade a w) = Inr () \<Longrightarrow>
     removed_paths (events_of (grade a w)) = made_paths (events_of (grade a w))"
    "result_of (grade a w) = Inl e \<Longrightarrow> e \<noteq> OSError \<Longrightarrow>
     removed_paths (events_of (grade a w)) = [] \<and> Print MsgCleaning \<notin> set (events_of (grade a w))"
    by blast+
qed

section \<open>What the cleanup deletes\<close>

text \<open>\<^verbatim>\<open>create_container\<close> changes nothing of the world but the containers.\<close>

lemma create_and_extract_frame:
  "\<exists>cs. world_of (create_and_extract name file img extra w) = w\<lparr>containers := cs\<rparr>"
proof -
  let ?I = "\<lambda>w'. \<exists>cs. w' = w\<lparr>containers := cs\<rparr>"
  have ex: "io_inv ?I (\<lambda>e. True) (extract_into i p)" for i p
  proof (rule io_invI)
    fix w' assume "\<exists>cs. w' = w\<lparr>containers := cs\<rparr>"
    then obtain cs where cs: "w' = w\<lparr>containers := cs\<rparr>" by blast
    show "(\<exists>cs. world_of (extract_into i p w') = w\<lparr>containers := cs\<rparr>)
        \<and> list_all (\<lambda>e. True) (events_of (extract_into i p w'))"
      by (cases rule: extract_into_cases[where i = i and ?file = p and w = w'])
         (auto simp: cs list_all_iff)
  qed
  have cr: "io_inv ?I (\<lambda>e. True) (cli_create_container a)" for a
  proof (rule io_invI)
    fix w' assume "\<exists>cs. w' = w\<lparr>containers := cs\<rparr>"
    then obtain cs where cs: "w' = w\<lparr>containers := cs\<rparr>" by blast
    show "(\<exists>cs. world_of (cli_create_container a w') = w\<lparr>containers := cs\<rparr>)
        \<and> list_all (\<lambda>e. True) (events_of (cli_create_container a w'))"
      by (cases rule: cli_create_container_cases[where a = a and w = w'])
         (auto simp: cs list_all_iff)
  qed
  have opt: "io_inv ?I (\<lambda>e. True) (case extra of
                None \<Rightarrow> io_return ()
              | Some x \<Rightarrow>
                  io_bind (emit (Print MsgExtractingExtra)) (\<lambda>u. extract_into i x))" for i
    by (cases extra) (auto intro!: io_inv_return io_inv_bind io_inv_emit ex)
  have "io_inv ?I (\<lambda>e. True) (create_and_extract name file img extra)"
    unfolding create_and_extract_def
    by (intro io_inv_bind io_inv_emit ex cr opt) simp_all
  moreover have "?I w" by (intro exI[of _ "containers w"]) simp
  ultimately show ?thesis using io_invD by fastforce
qed

lemma create_container_frame:
  "\<exists>cs. world_of (create_container folder file img extra w) = w\<lparr>containers := cs\<rparr>"
proof -
  let ?L = "containers_loop (container_name folder file) img (containers w) w"
  obtain Q where Q: "world_of ?L = w\<lparr>containers := filter Q (containers w)\<rparr>"
    using containers_loop_world by blast
  obtain cs where cs: "world_of (create_and_extract (container_name folder file) file img extra (world_of ?L))
      = (world_of ?L)\<lparr>containers := cs\<rparr>"
    using create_and_extract_frame by blast
  show ?thesis
  proof (cases "list_error w (containers w)")
    case (Some m)
    have "w = w\<lparr>containers := containers w\<rparr>" by simp
    then have "\<exists>cs. w = w\<lparr>containers := cs\<rparr>" by (rule exI)
    then show ?thesis using Some by (simp only: create_container_unlisted projections)
  next
    case None
    show ?thesis
    proof (cases "result_of ?L = Inr True")
      case True
      then show ?thesis using Q None by (auto simp: create_container_unfold)
    next
      case False
      then have "world_of (create_container folder file img extra w) = w\<lparr>containers := cs\<rparr>"
        using cs Q None by (simp add: create_container_unfold)
      then show ?thesis by blast
    qed
  qed
qed

lemma io_inv_packer_grade:
  "io_inv (\<lambda>w. utils_make_gzip w = g) (packer_event g) (grade a)"
proof (rule io_inv_grade)
  show "io_inv (\<lambda>w. utils_make_gzip w = g) (packer_event g)
      (create_container (args_folder a) f (args_image a) x)" for f x
  proof (rule io_invI)
    fix w :: world
    assume w: "utils_make_gzip w = g"
    obtain cs where "world_of (create_container (args_folder a) f (args_image a) x w) = w\<lparr>containers := cs\<rparr>"
      using create_container_frame by blast
    then have 1: "utils_make_gzip (world_of (create_container (args_folder a) f (args_image a) x w)) = g"
      using w by simp
    have "\<And>e. submission_event (args_folder a) f (args_image a) x e \<Longrightarrow> packer_event g e"
      by (auto simp: submission_event_def packer_event_def split: event.splits)
    then have 2: "list_all (packer_event g)
        (events_of (create_container (args_folder a) f (args_image a) x w))"
      using create_container_events[of "args_folder a" f "args_image a" x w]
      by (auto simp: list_all_iff)
    show "utils_make_gzip (world_of (create_container (args_folder a) f (args_image a) x w)) = g
        \<and> list_all (packer_event g) (events_of (create_container (args_folder a) f (args_image a) x w))"
      using 1 2 by simp
  qed
  show "io_inv (\<lambda>w. utils_make_gzip w = g) (packer_event g) (make_gzip src name)" for src name
    by (rule io_invI) (auto simp: make_gzip_def packer_event_def split: option.splits)
  show "io_inv (\<lambda>w. utils_make_gzip w = g) (packer_event g) (os_remove p)" for p
    by (rule io_invI) (auto simp: os_remove_def packer_event_def split: option.splits node.splits)
qed (auto simp: packer_event_def)

lemma made_paths_packer:
  assumes "list_all (packer_event g) evs" "p \<in> set (made_paths evs)"
  shows "\<exists>files src name files'. g files src name = Some (p, files')"
  using assms
proof (induction evs)
  case Nil
  then show ?case by simp
next
  case (Cons e evs)
  show ?case
  proof (cases "p \<in> set (made_of e)")
    case True
    then obtain src name where "e = MakeGzip src name (Some p)"
      by (cases e rule: made_of.cases) auto
    then show ?thesis using Cons.prems(1) by (auto simp: packer_event_def)
  next
    case False
    then show ?thesis using Cons by auto
  qed
qed

text \<open>
  Claim C10. The paths that \<^verbatim>\<open>grade\<close> hands to \<^verbatim>\<open>os.remove\<close> are, in this order, the
  first of the paths that \<^verbatim>\<open>make_gzip\<close> returned during the same run (all of them when
  the run returns normally): the wrapped extra archive and the archives of the
  directories. So every deleted path is one the packer handed back in this run; a path
  the packer never returns, such as a submission in the batch folder, a file submission
  passed on as it is, or a gzip extra file of the caller, is never deleted.
\<close>

theorem cleanup_removes_only_packed_archives:
  "prefix (removed_paths (events_of (grade a w))) (made_paths (events_of (grade a w)))
   \<and> (result_of (grade a w) = Inr ()
        \<longrightarrow> removed_paths (events_of (grade a w)) = made_paths (events_of (grade a w)))
   \<and> (OsRemove p \<in> set (events_of (grade a w))
        \<longrightarrow> p \<in> set (made_paths (events_of (grade a w)))
            \<and> (\<exists>files src name files'. utils_make_gzip w files src name = Some (p, files')))"
proof (intro conjI impI)
  show pre: "prefix (removed_paths (events_of (grade a w))) (made_paths (events_of (grade a w)))"
    by (rule grade_removed_made(1))
  show "removed_paths (events_of (grade a w)) = made_paths (events_of (grade a w))"
    if "result_of (grade a w) = Inr ()"
    using that by (rule grade_removed_made(2))
  assume "OsRemove p \<in> set (events_of (grade a w))"
  then have "p \<in> set (removed_paths (events_of (grade a w)))" by (simp add: removed_paths_iff)
  then show made: "p \<in> set (made_paths (events_of (grade a w)))"
    using pre set_mono_prefix by blast
  have "list_all (packer_event (utils_make_gzip w)) (events_of (grade a w))"
    using io_invD[OF io_inv_packer_grade[of "utils_make_gzip w" a], of w] by simp
  then show "\<exists>files src name files'. utils_make_gzip w files src name = Some (p, files')"
    using made by (rule made_paths_packer)
qed

theorem cleanup_removes_only_packed_archives_witness:
  "result_of (grade (args0 (Some ''x.gz'')) world0) = Inr ()
   \<and> removed_paths (events_of (grade (args0 (Some ''x.gz'')) world0)) = [''tmp/a.tgz'']
   \<and> made_paths (events_of (grade (args0 (Some ''x.gz'')) world0)) = [''tmp/a.tgz'']
   \<and> OsRemove ''tmp/a.tgz'' \<in> set (events_of (grade (args0 (Some ''x.gz'')) world0))
   \<and> (\<exists>files src name files'. utils_make_gzip world0 files src name = Some (''tmp/a.tgz'', files'))"
proof -
  let ?E = "events_of (grade (args0 (Some ''x.gz'')) world0)"
  have r: "result_of (grade (args0 (Some ''x.gz'')) world0) = Inr ()" by code_simp
  have m: "made_paths ?E = [''tmp/a.tgz'']" by code_simp
  have o: "OsRemove ''tmp/a.tgz'' \<in> set ?E" by code_simp
  note T = cleanup_removes_only_packed_archives[of "args0 (Some ''x.gz'')" world0 "''tmp/a.tgz''"]
  have 1: "removed_paths ?E = [''tmp/a.tgz'']" using T r m by simp
  have 2: "\<exists>files src name files'. utils_make_gzip world0 files src name = Some (''tmp/a.tgz'', files')"
    using T o by blast
  show ?thesis using r 1 m o 2 by (intro conjI)
qed

section \<open>The checks before the walk\<close>

text \<open>
  Claim C7 says that an extra path naming a directory is accepted and packed. The script
  rejects it: the first check on \<^verbatim>\<open>args.extra\<close> is \<^verbatim>\<open>os.path.isfile\<close>, which a
  directory fails, so \<^verbatim>\<open>grade\<close> prints its message and returns before the branch
  that would pack a directory (the branch asks \<^verbatim>\<open>os.path.isdir(args.extra)\<close> first) can
  be reached. On the sample world, with the directory \<^verbatim>\<open>extras\<close> as the extra path:
  the condition of the packing branch holds, and the run ends with the message alone.
\<close>

theorem directory_extra_is_rejected:
  "os_path_isdir world0 ''extras''
   \<and> (os_path_isdir world0 ''extras'' \<or> guess_encoding world0 ''extras'' \<noteq> Some ''gzip'')
   \<and> grade (args0 (Some ''extras'')) world0 = (Inr (), world0, [Print MsgInvalidExtra])"
  by (simp add: grade_def args0_def world0_def os_path_isdir_def os_path_isfile_def emit_def)

section \<open>The scan of the batch folder\<close>

text \<open>
  Claim C8. A folder path that is no directory (missing, or a file) ends the run with the
  message alone and the world unchanged. For a directory, the scan is the first triple of
  the walk: the names in the listing of the folder itself, split into those that are
  directories and the others; it changes nothing and has no events, and its result only
  depends on the listing of the folder and on the kind of each entry, not on anything
  below. In a run without extra file that returns normally, the directories packed are
  exactly the entry directories, in the order of the listing, and the names announced
  are those of their archives followed by those of the entry files.
\<close>

theorem scan_lists_one_level:
  "(\<not> os_path_isdir w (args_folder a) \<longrightarrow> grade a w = (Inr (), w, [Print MsgInvalidFolder]))
   \<and> (fs w (args_folder a) = Some (Dir names) \<longrightarrow>
        os_walk_next (args_folder a) w
          = (Inr (args_folder a,
                  filter (\<lambda>n. os_path_isdir w (join (args_folder a) n)) names,
                  filter (\<lambda>n. \<not> os_path_isdir w (join (args_folder a) n)) names), w, [])
        \<and> (fs w' (args_folder a) = fs w (args_folder a)
             \<and> (\<forall>n \<in> set names. os_path_isdir w' (join (args_folder a) n)
                                  = os_path_isdir w (join (args_folder a) n))
            \<longrightarrow> result_of (os_walk_next (args_folder a) w')
                  = result_of (os_walk_next (args_folder a) w))
        \<and> (args_extra a = None \<and> result_of (grade a w) = Inr ()
            \<longrightarrow> packed_dirs (events_of (grade a w))
                  = map (join (args_folder a))
                      (filter (\<lambda>n. os_path_isdir w (join (args_folder a) n)) names)
                \<and> users (events_of (grade a w))
                  = map display_name (made_paths (events_of (grade a w)))
                    @ map (\<lambda>n. display_name (join (args_folder a) n))
                        (filter (\<lambda>n. \<not> os_path_isdir w (join (args_folder a) n)) names)))"
proof (intro conjI impI)
  assume "\<not> os_path_isdir w (args_folder a)"
  then show "grade a w = (Inr (), w, [Print MsgInvalidFolder])"
    by (simp add: grade_def emit_def)
next
  assume dir: "fs w (args_folder a) = Some (Dir names)"
  show "os_walk_next (args_folder a) w
          = (Inr (args_folder a,
                  filter (\<lambda>n. os_path_isdir w (join (args_folder a) n)) names,
                  filter (\<lambda>n. \<not> os_path_isdir w (join (args_folder a) n)) names), w, [])"
    using dir by (simp add: os_walk_next_def)
next
  assume dir: "fs w (args_folder a) = Some (Dir names)"
    and same: "fs w' (args_folder a) = fs w (args_folder a)
             \<and> (\<forall>n \<in> set names. os_path_isdir w' (join (args_folder a) n)
                                  = os_path_isdir w (join (args_folder a) n))"
  have "filter (\<lambda>n. os_path_isdir w' (join (args_folder a) n)) names
      = filter (\<lambda>n. os_path_isdir w (join (args_folder a) n)) names"
    using same by (intro filter_cong) simp_all
  moreover have "filter (\<lambda>n. \<not> os_path_isdir w' (join (args_folder a) n)) names
      = filter (\<lambda>n. \<not> os_path_isdir w (join (args_folder a) n)) names"
    using same by (intro filter_cong) simp_all
  ultimately show "result_of (os_walk_next (args_folder a) w')
      = result_of (os_walk_next (args_folder a) w)"
    using dir same by (simp add: os_walk_next_def)
next
  assume dir: "fs w (args_folder a) = Some (Dir names)"
    and run: "args_extra a = None \<and> result_of (grade a w) = Inr ()"
  have isdir: "os_path_isdir w (args_folder a)" using dir by (simp add: os_path_isdir_def)
  let ?S = "scan_and_run (args_folder a) (args_image a) None [] w"
  have g: "grade a w = ?S" using isdir run by (simp add: grade_def)
  then have "result_of ?S = Inr ()" using run by simp
  then obtain names' body where b:
    "fs w (args_folder a) = Some (Dir names')"
    "events_of ?S = body @ Print MsgCleaning # map OsRemove ([] @ made_paths body)"
    "packed_dirs body = map (join (args_folder a))
        (filter (\<lambda>n. os_path_isdir w (join (args_folder a) n)) names')"
    "users body = map display_name (made_paths body)
        @ map display_name (map (join (args_folder a))
            (filter (\<lambda>n. \<not> os_path_isdir w (join (args_folder a) n)) names'))"
    using scan_and_run_summary(4)[of "args_folder a" "args_image a" None "[]" w] by blast
  have n: "names' = names" using b(1) dir by simp
  show "packed_dirs (events_of (grade a w))
      = map (join (args_folder a)) (filter (\<lambda>n. os_path_isdir w (join (args_folder a) n)) names)"
    using b(2) b(3) n by (simp add: g)
  show "users (events_of (grade a w))
      = map display_name (made_paths (events_of (grade a w)))
        @ map (\<lambda>n. display_name (join (args_folder a) n))
            (filter (\<lambda>n. \<not> os_path_isdir w (join (args_folder a) n)) names)"
    using b(2) b(4) n by (simp add: g comp_def)
qed

theorem scan_lists_one_level_witness:
  "fs world0 (args_folder (args0 None)) = Some (Dir [''a_submit'', ''b.gz''])
   \<and> result_of (grade (args0 None) world0) = Inr ()
   \<and> packed_dirs (events_of (grade (args0 None) world0))
       = map (join (args_folder (args0 None)))
           (filter (\<lambda>n. os_path_isdir world0 (join (args_folder (args0 None)) n))
              [''a_submit'', ''b.gz''])
   \<and> packed_dirs (events_of (grade (args0 None) world0)) = [''hw/a_submit'']
   \<and> users (events_of (grade (args0 None) world0)) = [''a'', ''b'']
   \<and> grade (args0 None\<lparr>args_folder := ''hw/b.gz''\<rparr>) world0
       = (Inr (), world0, [Print MsgInvalidFolder])"
proof -
  have d: "fs world0 (args_folder (args0 None)) = Some (Dir [''a_submit'', ''b.gz''])"
    by (simp add: world0_def args0_def)
  have x: "args_extra (args0 None) = None" by (simp add: args0_def)
  have r: "result_of (grade (args0 None) world0) = Inr ()" by code_simp
  have nd: "\<not> os_path_isdir world0 (args_folder (args0 None\<lparr>args_folder := ''hw/b.gz''\<rparr>))"
    by code_simp
  note T = scan_lists_one_level[where a = "args0 None" and w = world0 and w' = world0
      and names = "[''a_submit'', ''b.gz'']"]
  have 1: "packed_dirs (events_of (grade (args0 None) world0))
       = map (join (args_folder (args0 None)))
           (filter (\<lambda>n. os_path_isdir world0 (join (args_folder (args0 None)) n))
              [''a_submit'', ''b.gz''])"
    using T d x r by blast
  have 2: "packed_dirs (events_of (grade (args0 None) world0)) = [''hw/a_submit'']" by code_simp
  have 3: "users (events_of (grade (args0 None) world0)) = [''a'', ''b'']" by code_simp
  have 4: "grade (args0 None\<lparr>args_folder := ''hw/b.gz''\<rparr>) world0
       = (Inr (), world0, [Print MsgInvalidFolder])"
    using scan_lists_one_level[where a = "args0 None\<lparr>args_folder := ''hw/b.gz''\<rparr>" and w = world0
      and w' = world0 and names = "[]"] nd
    by blast
  show ?thesis using d r 1 2 3 4 by (intro conjI)
qed

section \<open>The name of a submission\<close>

lemma match_submit_longer:
  "length s \<noteq> 7 \<Longrightarrow> length s \<noteq> 8 \<Longrightarrow> match_submit s = None"
proof (cases "match_submit s")
  case None
  then show ?thesis .
next
  case (Some n)
  assume "length s \<noteq> 7" "length s \<noteq> 8"
  moreover have "s = ''_submit'' \<or> s = ''_submit'' @ [CHR 0x0A]"
    using Some match_submit_Some by blast
  ultimately show ?thesis by auto
qed

lemma match_submit_before_submit:
  assumes "x \<noteq> []"
  shows "match_submit (x @ ''_submit'') = None"
proof (cases "match_submit (x @ ''_submit'')")
  case None
  then show ?thesis .
next
  case (Some n)
  then consider "x @ ''_submit'' = ''_submit''" | "x @ ''_submit'' = ''_submit'' @ [CHR 0x0A]"
    using match_submit_Some by blast
  then show ?thesis
  proof cases
    case 1
    then show ?thesis using assms by simp
  next
    case 2
    then have "last (x @ ''_submit'') = last (''_submit'' @ [CHR 0x0A])" by simp
    then show ?thesis by simp
  qed
qed

lemma match_submit_before_submit_nl:
  assumes "x \<noteq> []"
  shows "match_submit (x @ ''_submit'' @ [CHR 0x0A]) = None"
  using assms by (intro match_submit_longer) (cases x, simp_all)+

lemma folder_name_submit:
  assumes b: "basename d = u @ ''_submit''"
  shows "folder_name d = u"
proof -
  have skip: "\<And>k. k < length u \<Longrightarrow> match_submit (drop k u @ ''_submit'') = None"
    by (rule match_submit_before_submit) simp
  have "re_sub_empty match_submit (u @ ''_submit'') = u @ re_sub_empty match_submit ''_submit''"
    using skip by (rule re_sub_empty_skip)
  also have "re_sub_empty match_submit ''_submit'' = []"
    by (simp add: match_submit_def at_end_def)
  finally show ?thesis by (simp add: folder_name_def b)
qed

lemma folder_name_submit_nl:
  assumes b: "basename d = u @ ''_submit'' @ [CHR 0x0A]"
  shows "folder_name d = u @ [CHR 0x0A]"
proof -
  have skip: "\<And>k. k < length u \<Longrightarrow> match_submit (drop k u @ ''_submit'' @ [CHR 0x0A]) = None"
    by (rule match_submit_before_submit_nl) simp
  have "re_sub_empty match_submit (u @ ''_submit'' @ [CHR 0x0A])
      = u @ re_sub_empty match_submit (''_submit'' @ [CHR 0x0A])"
    using skip by (rule re_sub_empty_skip)
  also have "re_sub_empty match_submit (''_submit'' @ [CHR 0x0A]) = [CHR 0x0A]"
    by (simp add: match_submit_def at_end_def)
  finally show ?thesis by (simp add: folder_name_def b)
qed

lemma folder_name_unchanged:
  assumes s1: "\<not> suffix ''_submit'' (basename d)"
      and s2: "\<not> suffix (''_submit'' @ [CHR 0x0A]) (basename d)"
  shows "folder_name d = basename d"
proof -
  let ?b = "basename d"
  have skip: "\<And>k. k < length ?b \<Longrightarrow> match_submit (drop k ?b @ []) = None"
  proof -
    fix k assume k: "k < length ?b"
    show "match_submit (drop k ?b @ []) = None"
    proof (cases "match_submit (drop k ?b)")
      case None
      then show ?thesis by simp
    next
      case (Some n)
      then have "drop k ?b = ''_submit'' \<or> drop k ?b = ''_submit'' @ [CHR 0x0A]"
        using match_submit_Some by blast
      moreover have "suffix (drop k ?b) ?b" by (rule suffix_drop)
      ultimately show ?thesis using s1 s2 by auto
    qed
  qed
  have "re_sub_empty match_submit (?b @ []) = ?b @ re_sub_empty match_submit []"
    using skip by (rule re_sub_empty_skip)
  then show ?thesis by (simp add: folder_name_def)
qed

lemma match_user_before_submit_nl:
  assumes "x \<noteq> []" "CHR ''.'' \<notin> set x"
  shows "match_user (x @ ''_submit'' @ [CHR 0x0A]) = None"
proof -
  have "match_submit (x @ ''_submit'' @ [CHR 0x0A]) = None"
    using assms(1) by (rule match_submit_before_submit_nl)
  moreover have "match_extension (x @ ''_submit'' @ [CHR 0x0A]) = None"
    using assms by (intro match_extension_no_dot) (cases x, auto)
  ultimately show ?thesis by (simp add: match_user_def)
qed

lemma display_name_submit_nl:
  assumes b: "basename file = u @ ''_submit'' @ [CHR 0x0A]" and u: "CHR ''.'' \<notin> set u"
  shows "display_name file = u @ [CHR 0x0A]"
proof -
  have skip: "\<And>k. k < length u \<Longrightarrow> match_user (drop k u @ ''_submit'' @ [CHR 0x0A]) = None"
  proof -
    fix k assume "k < length u"
    then have "drop k u \<noteq> []" by simp
    moreover have "CHR ''.'' \<notin> set (drop k u)" using u in_set_dropD by fastforce
    ultimately show "match_user (drop k u @ ''_submit'' @ [CHR 0x0A]) = None"
      by (rule match_user_before_submit_nl)
  qed
  have "re_sub_empty match_user (u @ ''_submit'' @ [CHR 0x0A])
      = u @ re_sub_empty match_user (''_submit'' @ [CHR 0x0A])"
    using skip by (rule re_sub_empty_skip)
  also have "re_sub_empty match_user (''_submit'' @ [CHR 0x0A]) = [CHR 0x0A]"
    by (simp add: match_user_def match_submit_def match_extension_def at_end_def)
  finally show ?thesis by (simp add: display_name_def b)
qed

lemma create_container_first_event:
  "\<exists>rest. events_of (create_container folder file img extra w)
     = Print (MsgUser (display_name file)) # ListContainers True # rest"
  by (cases "list_error w (containers w)")
     (simp_all add: create_container_unfold create_container_unlisted)

lemma files_loop_prefix:
  "prefix (events_of (create_container folder file img extra w))
     (events_of (files_loop folder img extra (file # rest) w))"
  by (simp add: files_loop_Cons split: sum.split del: files_loop.simps)

lemma dirs_loop_prefix:
  "utils_make_gzip w (fs w) d (Some (folder_name d)) = Some (p, files) \<Longrightarrow>
   prefix (MakeGzip d (Some (folder_name d)) (Some p)
             # events_of (create_container folder p img extra (w\<lparr>fs := files\<rparr>)))
     (events_of (dirs_loop folder img extra cleanup (d # ds) w))"
  by (simp add: dirs_loop_Cons split: sum.split del: dirs_loop.simps)

text \<open>
  Claim C3, amended. The name shown for a submission is computed by one substitution from
  the base name of the path that \<^verbatim>\<open>create_container\<close> is given. For a file of the batch
  folder that is the path of the file. For a directory it is the path of the archive that
  \<^verbatim>\<open>make_gzip\<close> returned for it, and the directory is packed under its base name
  without one trailing \<^verbatim>\<open>_submit\<close> (a newline behind that ending stays). The
  substitution: when the base name has a dot that is followed by at least one character,
  everything from its first dot on is removed; when it has no such dot and ends in
  \<^verbatim>\<open>_submit\<close>, that ending is removed; when it has no such dot and ends in
  \<^verbatim>\<open>_submit\<close> and a newline, the \<^verbatim>\<open>_submit\<close> is removed and the newline stays; any
  other base name is kept. The call prints that name first, and every container it asks
  for is named by the base name of the batch folder, an underscore and that name, a
  function of the two paths alone. So a file \<^verbatim>\<open>alice_submit.tar.gz\<close> gives
  \<^verbatim>\<open>alice_submit\<close>, a file \<^verbatim>\<open>bob_submit\<close> gives \<^verbatim>\<open>bob\<close>, a directory
  \<^verbatim>\<open>bob_submit\<close> is packed under the name \<^verbatim>\<open>bob\<close>, and \<^verbatim>\<open>carol.zip\<close> gives
  \<^verbatim>\<open>carol\<close>.
\<close>

theorem display_name_strips_once:
  "container_name folder file = basename folder @ ''_'' @ display_name file
   \<and> (basename file = u @ CHR ''.'' # v \<and> v \<noteq> [] \<and> CHR ''.'' \<notin> set u
        \<longrightarrow> display_name file = u)
   \<and> (basename file = u @ ''_submit'' \<and> CHR ''.'' \<notin> set u \<longrightarrow> display_name file = u)
   \<and> (basename file = u @ ''_submit'' @ [CHR 0x0A] \<and> CHR ''.'' \<notin> set u
        \<longrightarrow> display_name file = u @ [CHR 0x0A])
   \<and> (CHR ''.'' \<notin> set (butlast (basename file)) \<and> \<not> suffix ''_submit'' (basename file)
        \<and> \<not> suffix (''_submit'' @ [CHR 0x0A]) (basename file)
        \<longrightarrow> display_name file = basename file)
   \<and> hd (events_of (create_container folder file img extra w))
       = Print (MsgUser (display_name file))
   \<and> (CreateContainer ca r \<in> set (events_of (create_container folder file img extra w))
        \<longrightarrow> ca_name ca = container_name folder file)
   \<and> prefix (events_of (create_container folder file img extra w))
       (events_of (files_loop folder img extra (file # rest) w))
   \<and> (basename d = u @ ''_submit'' \<longrightarrow> folder_name d = u)
   \<and> (basename d = u @ ''_submit'' @ [CHR 0x0A] \<longrightarrow> folder_name d = u @ [CHR 0x0A])
   \<and> (\<not> suffix ''_submit'' (basename d) \<and> \<not> suffix (''_submit'' @ [CHR 0x0A]) (basename d)
        \<longrightarrow> folder_name d = basename d)
   \<and> (utils_make_gzip w (fs w) d (Some (folder_name d)) = Some (p, files)
        \<longrightarrow> prefix (MakeGzip d (Some (folder_name d)) (Some p)
                      # events_of (create_container folder p img extra (w\<lparr>fs := files\<rparr>)))
              (events_of (dirs_loop folder img extra cleanup (d # ds) w)))
   \<and> display_name ''alice_submit.tar.gz'' = ''alice_submit''
   \<and> folder_name ''bob_submit'' = ''bob''
   \<and> display_name ''bob_submit'' = ''bob''
   \<and> display_name ''carol.zip'' = ''carol''"
proof (intro conjI impI)
  show "container_name folder file = basename folder @ ''_'' @ display_name file"
    by (simp add: container_name_def)
next
  assume "basename file = u @ CHR ''.'' # v \<and> v \<noteq> [] \<and> CHR ''.'' \<notin> set u"
  then show "display_name file = u" using display_name_dot by blast
next
  assume "basename file = u @ ''_submit'' \<and> CHR ''.'' \<notin> set u"
  then show "display_name file = u" using display_name_submit by blast
next
  assume "basename file = u @ ''_submit'' @ [CHR 0x0A] \<and> CHR ''.'' \<notin> set u"
  then show "display_name file = u @ [CHR 0x0A]" using display_name_submit_nl by blast
next
  assume "CHR ''.'' \<notin> set (butlast (basename file)) \<and> \<not> suffix ''_submit'' (basename file)
    \<and> \<not> suffix (''_submit'' @ [CHR 0x0A]) (basename file)"
  then show "display_name file = basename file" using display_name_unchanged by blast
next
  show "hd (events_of (create_container folder file img extra w))
      = Print (MsgUser (display_name file))"
    using create_container_first_event[of folder "file" img extra w] by auto
next
  assume "CreateContainer ca r \<in> set (events_of (create_container folder file img extra w))"
  then have "submission_event folder file img extra (CreateContainer ca r)"
    using create_container_events[of folder "file" img extra w] by (simp add: list_all_iff)
  then show "ca_name ca = container_name folder file"
    by (simp add: submission_event_def new_container_args_def)
next
  show "prefix (events_of (create_container folder file img extra w))
       (events_of (files_loop folder img extra (file # rest) w))"
    by (rule files_loop_prefix)
next
  assume "basename d = u @ ''_submit''"
  then show "folder_name d = u" by (rule folder_name_submit)
next
  assume "basename d = u @ ''_submit'' @ [CHR 0x0A]"
  then show "folder_name d = u @ [CHR 0x0A]" by (rule folder_name_submit_nl)
next
  assume "\<not> suffix ''_submit'' (basename d) \<and> \<not> suffix (''_submit'' @ [CHR 0x0A]) (basename d)"
  then show "folder_name d = basename d" using folder_name_unchanged by blast
next
  assume "utils_make_gzip w (fs w) d (Some (folder_name d)) = Some (p, files)"
  then show "prefix (MakeGzip d (Some (folder_name d)) (Some p)
                      # events_of (create_container folder p img extra (w\<lparr>fs := files\<rparr>)))
              (events_of (dirs_loop folder img extra cleanup (d # ds) w))"
    by (rule dirs_loop_prefix)
next
  have "basename ''alice_submit.tar.gz'' = ''alice_submit'' @ CHR ''.'' # ''tar.gz''"
    by (simp add: basename_def)
  then show "display_name ''alice_submit.tar.gz'' = ''alice_submit''"
    by (rule display_name_dot) simp_all
next
  have "basename ''bob_submit'' = ''bob'' @ ''_submit''" by (simp add: basename_def)
  then show "folder_name ''bob_submit'' = ''bob''" by (rule folder_name_submit)
next
  have "basename ''bob_submit'' = ''bob'' @ ''_submit''" by (simp add: basename_def)
  then show "display_name ''bob_submit'' = ''bob''" by (rule display_name_submit) simp
next
  have "basename ''carol.zip'' = ''carol'' @ CHR ''.'' # ''zip''" by (simp add: basename_def)
  then show "display_name ''carol.zip'' = ''carol''" by (rule display_name_dot) simp_all
qed

theorem display_name_strips_once_witness:
  "display_name ''HW8/carol.tar.gz'' = ''carol''
   \<and> display_name ''HW8/bob_submit'' = ''bob''
   \<and> display_name (''HW8/eve_submit'' @ [CHR 0x0A]) = ''eve'' @ [CHR 0x0A]
   \<and> display_name ''HW8/dave'' = ''dave''
   \<and> container_name ''HW8'' ''HW8/carol.tar.gz'' = ''HW8_carol''
   \<and> folder_name ''hw/a_submit'' = ''a''
   \<and> folder_name ''hw/a.v2'' = ''a.v2''
   \<and> CreateContainer (new_container_args ''img'' ''hw_b'') (Some ''id_hw_b'')
        \<in> set (events_of (create_container ''hw'' ''hw/b.gz'' ''img'' None world0))
   \<and> ca_name (new_container_args ''img'' ''hw_b'') = container_name ''hw'' ''hw/b.gz''
   \<and> prefix (MakeGzip ''hw/a_submit'' (Some (folder_name ''hw/a_submit'')) (Some ''tmp/a.tgz'')
               # events_of (create_container ''hw'' ''tmp/a.tgz'' ''img'' None
                   (world0\<lparr>fs := (fs world0)(''tmp/a.tgz'' \<mapsto> File ''Zhw/a_submit'')\<rparr>)))
        (events_of (dirs_loop ''hw'' ''img'' None [] [''hw/a_submit''] world0))"
proof -
  have b1: "basename ''HW8/carol.tar.gz'' = ''carol'' @ CHR ''.'' # ''tar.gz''"
    by (simp add: basename_def)
  have b2: "basename ''HW8/bob_submit'' = ''bob'' @ ''_submit''"
    by (simp add: basename_def)
  have b3: "basename ''HW8/dave'' = ''dave''"
    by (simp add: basename_def)
  have b4: "basename ''HW8'' = ''HW8''"
    by (simp add: basename_def)
  have b5: "basename (''HW8/eve_submit'' @ [CHR 0x0A]) = ''eve'' @ ''_submit'' @ [CHR 0x0A]"
    by (simp add: basename_def)
  have b6: "basename ''hw/a_submit'' = ''a'' @ ''_submit''"
    by (simp add: basename_def)
  have b7: "basename ''hw/a.v2'' = ''a.v2''"
    by (simp add: basename_def)
  have d1: "display_name ''HW8/carol.tar.gz'' = ''carol''"
    using display_name_strips_once[where ?file = "''HW8/carol.tar.gz''" and u = "''carol''"
        and v = "''tar.gz''"] b1
    by simp
  have d2: "display_name ''HW8/bob_submit'' = ''bob''"
    using display_name_strips_once[where ?file = "''HW8/bob_submit''" and u = "''bob''"] b2
    by simp
  have d3: "display_name (''HW8/eve_submit'' @ [CHR 0x0A]) = ''eve'' @ [CHR 0x0A]"
    using display_name_strips_once[where ?file = "''HW8/eve_submit'' @ [CHR 0x0A]"
        and u = "''eve''"] b5
    by simp
  have d4: "display_name ''HW8/dave'' = ''dave''"
    using display_name_strips_once[where ?file = "''HW8/dave''"] b3
    by (simp add: suffix_def)
  have d5: "container_name ''HW8'' ''HW8/carol.tar.gz'' = ''HW8_carol''"
    using display_name_strips_once[where folder = "''HW8''" and ?file = "''HW8/carol.tar.gz''"
        and u = "''carol''" and v = "''tar.gz''"] b1 b4
    by simp
  have f1: "folder_name ''hw/a_submit'' = ''a''"
    using display_name_strips_once[where d = "''hw/a_submit''" and u = "''a''"] b6
    by simp
  have f2: "folder_name ''hw/a.v2'' = ''a.v2''"
    using display_name_strips_once[where d = "''hw/a.v2''"] b7
    by (simp add: suffix_def)
  have e: "CreateContainer (new_container_args ''img'' ''hw_b'') (Some ''id_hw_b'')
        \<in> set (events_of (create_container ''hw'' ''hw/b.gz'' ''img'' None world0))"
    by code_simp
  have n: "ca_name (new_container_args ''img'' ''hw_b'') = container_name ''hw'' ''hw/b.gz''"
    using display_name_strips_once[where folder = "''hw''" and ?file = "''hw/b.gz''"
        and img = "''img''" and extra = None and w = world0
        and ca = "new_container_args ''img'' ''hw_b''" and r = "Some ''id_hw_b''"] e
    by blast
  have m: "utils_make_gzip world0 (fs world0) ''hw/a_submit'' (Some (folder_name ''hw/a_submit''))
      = Some (''tmp/a.tgz'', (fs world0)(''tmp/a.tgz'' \<mapsto> File ''Zhw/a_submit''))"
    by (simp add: f1) (simp add: world0_def sample_make_gzip_def Let_def)
  have p: "prefix (MakeGzip ''hw/a_submit'' (Some (folder_name ''hw/a_submit'')) (Some ''tmp/a.tgz'')
               # events_of (create_container ''hw'' ''tmp/a.tgz'' ''img'' None
                   (world0\<lparr>fs := (fs world0)(''tmp/a.tgz'' \<mapsto> File ''Zhw/a_submit'')\<rparr>)))
        (events_of (dirs_loop ''hw'' ''img'' None [] [''hw/a_submit''] world0))"
    using display_name_strips_once[where folder = "''hw''" and d = "''hw/a_submit''"
        and img = "''img''" and extra = None and w = world0 and p = "''tmp/a.tgz''"
        and files = "(fs world0)(''tmp/a.tgz'' \<mapsto> File ''Zhw/a_submit'')"
        and cleanup = "[]" and ds = "[]"] m
    by blast
  show ?thesis using d1 d2 d3 d4 d5 f1 f2 e n p by (intro conjI)
qed

text \<open>
  Claim C3 as it is written fails on its own first example: the pattern removes the
  extension of \<^verbatim>\<open>alice_submit.tar.gz\<close> from the first dot on and the scan ends there,
  so \<^verbatim>\<open>_submit\<close> stays. And the name of a directory is not a function of its path:
  it is taken from the path of the archive, so the directory \<^verbatim>\<open>a_submit\<close> of the
  sample world is shown as \<^verbatim>\<open>a\<close> with the sample packer, and under the name of the
  temporary file with a packer that names its archive so.
\<close>

theorem display_name_alice_counterexample:
  "display_name ''alice_submit.tar.gz'' \<noteq> ''alice''
   \<and> display_name ''alice_submit.tar.gz'' = ''alice_submit''
   \<and> users (events_of (dirs_loop ''hw'' ''img'' None [] [''hw/a_submit''] world0)) = [''a'']
   \<and> users (events_of (dirs_loop ''hw'' ''img'' None [] [''hw/a_submit'']
          (world0\<lparr>utils_make_gzip := mktemp_make_gzip\<rparr>))) = [''tmpq3x9'']
   \<and> map ca_name (creations (events_of (dirs_loop ''hw'' ''img'' None [] [''hw/a_submit'']
          (world0\<lparr>utils_make_gzip := mktemp_make_gzip\<rparr>)))) = [''hw_tmpq3x9'']"
proof -
  have "basename ''alice_submit.tar.gz'' = ''alice_submit'' @ CHR ''.'' # ''tar.gz''"
    by (simp add: basename_def)
  then have a: "display_name ''alice_submit.tar.gz'' = ''alice_submit''"
    by (rule display_name_dot) simp_all
  then have n: "display_name ''alice_submit.tar.gz'' \<noteq> ''alice''" by simp
  have 1: "users (events_of (dirs_loop ''hw'' ''img'' None [] [''hw/a_submit''] world0)) = [''a'']"
    by code_simp
  have 2: "users (events_of (dirs_loop ''hw'' ''img'' None [] [''hw/a_submit'']
          (world0\<lparr>utils_make_gzip := mktemp_make_gzip\<rparr>))) = [''tmpq3x9'']"
    by code_simp
  have 3: "map ca_name (creations (events_of (dirs_loop ''hw'' ''img'' None [] [''hw/a_submit'']
          (world0\<lparr>utils_make_gzip := mktemp_make_gzip\<rparr>)))) = [''hw_tmpq3x9'']"
    by code_simp
  show ?thesis using n a 1 2 3 by (intro conjI)
qed

section \<open>A removal that fails\<close>

lemma followed_quiet: "\<forall>e \<in> set xs. \<not> remove_failed e \<Longrightarrow> followed xs"
  by (induction xs rule: followed.induct) auto

lemma followed_tl: "followed (x # xs) \<Longrightarrow> followed xs"
  by (cases xs) simp_all

lemma followed_append:
  "followed xs \<Longrightarrow> followed ys
   \<Longrightarrow> ys = [] \<or> starts_next (hd ys) \<or> xs = [] \<or> \<not> remove_failed (last xs)
   \<Longrightarrow> followed (xs @ ys)"
proof (induction xs rule: followed.induct)
  case 1
  then show ?case by simp
next
  case (2 e)
  then show ?case by (cases ys) auto
next
  case (3 e n rest)
  then show ?case by simp
qed

lemma followed_split:
  "followed E \<Longrightarrow> E = pre @ Print (MsgRemoveFailed m) # n # post \<Longrightarrow> starts_next n"
proof (induction pre arbitrary: E)
  case Nil
  then show ?case by simp
next
  case (Cons x pre)
  have "followed (pre @ Print (MsgRemoveFailed m) # n # post)"
    using Cons.prems followed_tl by auto
  then show ?case using Cons.IH by blast
qed

lemma containers_loop_failed:
  "(\<forall>e \<in> set (events_of (containers_loop name img cs w)). \<not> remove_failed e)
   \<or> (result_of (containers_loop name img cs w) = Inr True
       \<and> (\<exists>q m. events_of (containers_loop name img cs w) = q @ [Print (MsgRemoveFailed m)]
             \<and> (\<forall>e \<in> set q. \<not> remove_failed e)))"
proof (induction cs arbitrary: w)
  case Nil
  then show ?case by simp
next
  case (Cons c cs)
  show ?case
  proof (cases rule: names_loop_cases[where names = "c_Names c" and name = name and c = c and img = img and w = w])
    case nomatch
    then show ?thesis using Cons.IH[of w] by (simp add: containers_loop_Cons del: containers_loop.simps)
  next
    case mismatch
    then show ?thesis by (simp add: containers_loop_Cons del: containers_loop.simps)
  next
    case (unremoved m)
    have "[Print MsgRemoving, RemoveContainer (c_Id c) True, Print (MsgRemoveFailed m)]
        = [Print MsgRemoving, RemoveContainer (c_Id c) True] @ [Print (MsgRemoveFailed m)]
      \<and> (\<forall>e \<in> set [Print MsgRemoving, RemoveContainer (c_Id c) True]. \<not> remove_failed e)"
      by simp
    then have "\<exists>q m'. [Print MsgRemoving, RemoveContainer (c_Id c) True, Print (MsgRemoveFailed m)]
        = q @ [Print (MsgRemoveFailed m')] \<and> (\<forall>e \<in> set q. \<not> remove_failed e)"
      by blast
    then show ?thesis using unremoved
      by (simp add: containers_loop_Cons del: containers_loop.simps)
  next
    case removed
    let ?w1 = "w\<lparr>containers := filter (\<lambda>d. c_Id d \<noteq> c_Id c) (containers w)\<rparr>"
    let ?L = "containers_loop name img cs ?w1"
    have ev: "events_of (containers_loop name img (c # cs) w)
        = [Print MsgRemoving, RemoveContainer (c_Id c) True] @ events_of ?L"
      and res: "result_of (containers_loop name img (c # cs) w) = result_of ?L"
      using removed(4) by (simp_all add: containers_loop_Cons del: containers_loop.simps)
    from Cons.IH[of ?w1] show ?thesis
    proof
      assume "\<forall>e \<in> set (events_of ?L). \<not> remove_failed e"
      then show ?thesis unfolding ev by auto
    next
      assume "result_of ?L = Inr True
        \<and> (\<exists>q m. events_of ?L = q @ [Print (MsgRemoveFailed m)] \<and> (\<forall>e \<in> set q. \<not> remove_failed e))"
      then obtain q m where r: "result_of ?L = Inr True"
        and q: "events_of ?L = q @ [Print (MsgRemoveFailed m)]" "\<forall>e \<in> set q. \<not> remove_failed e"
        by blast
      have "events_of (containers_loop name img (c # cs) w)
          = ([Print MsgRemoving, RemoveContainer (c_Id c) True] @ q) @ [Print (MsgRemoveFailed m)]
        \<and> (\<forall>e \<in> set ([Print MsgRemoving, RemoveContainer (c_Id c) True] @ q). \<not> remove_failed e)"
        unfolding ev using q by simp
      then have "\<exists>q m. events_of (containers_loop name img (c # cs) w) = q @ [Print (MsgRemoveFailed m)]
          \<and> (\<forall>e \<in> set q. \<not> remove_failed e)"
        by blast
      then show ?thesis using r res by simp
    qed
  qed
qed

lemma create_and_extract_no_failed:
  "\<forall>e \<in> set (events_of (create_and_extract name file img extra w)). \<not> remove_failed e"
proof -
  have tr: "\<And>i d d'. \<forall>e \<in> set (extraction_trace name file img extra i d d'). \<not> remove_failed e"
    by (auto simp: extraction_trace_def split: option.splits)
  show ?thesis
  proof (cases rule: create_and_extract_cases[where name = name and ?file = "file" and img = img
        and extra = extra and w = w])
    case refused
    then show ?thesis by simp
  next
    case (failed e i w' evs d d')
    then show ?thesis using tr[of i d d'] set_mono_prefix by fastforce
  next
    case (finished i w' d d')
    then show ?thesis using tr[of i d d'] by simp
  qed
qed

lemma create_container_followed:
  "followed (events_of (create_container folder file img extra w))
   \<and> events_of (create_container folder file img extra w) \<noteq> []
   \<and> starts_next (hd (events_of (create_container folder file img extra w)))
   \<and> (\<forall>e. result_of (create_container folder file img extra w) = Inl e
          \<longrightarrow> \<not> remove_failed (last (events_of (create_container folder file img extra w))))"
proof (cases "list_error w (containers w)")
  case (Some m)
  then show ?thesis by (simp add: create_container_unlisted)
next
  case None
  let ?L = "containers_loop (container_name folder file) img (containers w) w"
  let ?T = "create_and_extract (container_name folder file) file img extra (world_of ?L)"
  let ?h = "[Print (MsgUser (display_name file)), ListContainers True]"
  note F = containers_loop_failed[of "container_name folder file" img "containers w" w]
  show ?thesis
  proof (cases "result_of ?L = Inr True")
    case True
    then have E: "events_of (create_container folder file img extra w) = ?h @ events_of ?L"
      and R: "result_of (create_container folder file img extra w) = Inr ()"
      using None by (simp_all add: create_container_unfold)
    have "followed (?h @ events_of ?L)"
    proof -
      from F show ?thesis
      proof
        assume "\<forall>e \<in> set (events_of ?L). \<not> remove_failed e"
        then show ?thesis by (intro followed_quiet) auto
      next
        assume "result_of ?L = Inr True
          \<and> (\<exists>q m. events_of ?L = q @ [Print (MsgRemoveFailed m)] \<and> (\<forall>e \<in> set q. \<not> remove_failed e))"
        then obtain q m where q: "events_of ?L = q @ [Print (MsgRemoveFailed m)]"
            "\<forall>e \<in> set q. \<not> remove_failed e"
          by blast
        have 1: "followed (?h @ q)" using q(2) by (intro followed_quiet) auto
        have 2: "\<not> remove_failed (last (?h @ q))"
          using q(2) by (cases q rule: rev_cases) auto
        have 3: "followed [Print (MsgRemoveFailed m)]" by simp
        have "followed ((?h @ q) @ [Print (MsgRemoveFailed m)])"
          by (rule followed_append[OF 1 3], (rule disjI2)+, rule 2)
        then show ?thesis by (simp add: q(1))
      qed
    qed
    then show ?thesis using E R by simp
  next
    case False
    then have E: "events_of (create_container folder file img extra w)
        = ?h @ events_of ?L @ events_of ?T"
      using None by (simp add: create_container_unfold)
    have qL: "\<forall>e \<in> set (events_of ?L). \<not> remove_failed e" using F False by blast
    have qT: "\<forall>e \<in> set (events_of ?T). \<not> remove_failed e"
      by (rule create_and_extract_no_failed)
    have q: "\<forall>e \<in> set (events_of (create_container folder file img extra w)). \<not> remove_failed e"
      unfolding E using qL qT by auto
    have ne: "events_of (create_container folder file img extra w) \<noteq> []" unfolding E by simp
    have "\<not> remove_failed (last (events_of (create_container folder file img extra w)))"
      using q ne last_in_set by blast
    moreover have "followed (events_of (create_container folder file img extra w))"
      using q by (rule followed_quiet)
    moreover have "starts_next (hd (events_of (create_container folder file img extra w)))"
      unfolding E by simp
    ultimately show ?thesis using ne by simp
  qed
qed

lemma files_loop_followed:
  "followed (events_of (files_loop dirpath img extra files w))
   \<and> (events_of (files_loop dirpath img extra files w) = []
        \<or> starts_next (hd (events_of (files_loop dirpath img extra files w))))
   \<and> (\<forall>e. result_of (files_loop dirpath img extra files w) = Inl e
          \<longrightarrow> events_of (files_loop dirpath img extra files w) \<noteq> []
              \<and> \<not> remove_failed (last (events_of (files_loop dirpath img extra files w))))"
proof (induction files arbitrary: w)
  case Nil
  then show ?case by simp
next
  case (Cons f files)
  let ?C = "create_container dirpath f img extra w"
  note cc = create_container_followed[of dirpath f img extra w]
  show ?case
  proof (cases "result_of ?C")
    case (Inl e)
    then have "files_loop dirpath img extra (f # files) w = ?C"
      by (simp add: files_loop_Cons del: files_loop.simps)
    then show ?thesis using cc Inl by simp
  next
    case (Inr u)
    let ?F = "files_loop dirpath img extra files (world_of ?C)"
    have E: "events_of (files_loop dirpath img extra (f # files) w) = events_of ?C @ events_of ?F"
      and R: "result_of (files_loop dirpath img extra (f # files) w) = result_of ?F"
      using Inr by (simp_all add: files_loop_Cons del: files_loop.simps)
    note IH = Cons.IH[of "world_of ?C"]
    have 1: "followed (events_of ?C @ events_of ?F)"
      using cc IH by (intro followed_append) auto
    have 2: "starts_next (hd (events_of ?C @ events_of ?F))" using cc by simp
    have 3: "\<forall>e. result_of ?F = Inl e \<longrightarrow> \<not> remove_failed (last (events_of ?C @ events_of ?F))"
      using IH by auto
    show ?thesis unfolding E R using 1 2 3 cc by simp
  qed
qed

lemma dirs_loop_followed:
  "followed (events_of (dirs_loop dirpath img extra cleanup dirs w))
   \<and> (events_of (dirs_loop dirpath img extra cleanup dirs w) = []
        \<or> starts_next (hd (events_of (dirs_loop dirpath img extra cleanup dirs w))))
   \<and> (\<forall>e. result_of (dirs_loop dirpath img extra cleanup dirs w) = Inl e
          \<longrightarrow> events_of (dirs_loop dirpath img extra cleanup dirs w) \<noteq> []
              \<and> \<not> remove_failed (last (events_of (dirs_loop dirpath img extra cleanup dirs w))))"
proof (induction dirs arbitrary: w cleanup)
  case Nil
  then show ?case by simp
next
  case (Cons d dirs)
  show ?case
  proof (cases "utils_make_gzip w (fs w) d (Some (folder_name d))")
    case None
    then show ?thesis by (simp add: dirs_loop_Cons del: dirs_loop.simps)
  next
    case (Some pf)
    obtain p files where pf: "pf = (p, files)" by (cases pf)
    let ?C = "create_container dirpath p img extra (w\<lparr>fs := files\<rparr>)"
    let ?m = "MakeGzip d (Some (folder_name d)) (Some p)"
    note cc = create_container_followed[of dirpath p img extra "w\<lparr>fs := files\<rparr>"]
    have mC: "followed (?m # events_of ?C)"
      using cc followed_append[of "[?m]" "events_of ?C"] by simp
    have lC: "last (?m # events_of ?C) = last (events_of ?C)" using cc by simp
    show ?thesis
    proof (cases "result_of ?C")
      case (Inl e)
      then have E: "events_of (dirs_loop dirpath img extra cleanup (d # dirs) w) = ?m # events_of ?C"
        and R: "result_of (dirs_loop dirpath img extra cleanup (d # dirs) w) = Inl e"
        using Some pf by (simp_all add: dirs_loop_Cons del: dirs_loop.simps)
      show ?thesis unfolding E R using mC lC cc Inl by simp
    next
      case (Inr u)
      let ?D = "dirs_loop dirpath img extra (cleanup @ [p]) dirs (world_of ?C)"
      have E: "events_of (dirs_loop dirpath img extra cleanup (d # dirs) w)
          = (?m # events_of ?C) @ events_of ?D"
        and R: "result_of (dirs_loop dirpath img extra cleanup (d # dirs) w) = result_of ?D"
        using Inr Some pf by (simp_all add: dirs_loop_Cons del: dirs_loop.simps)
      note IH = Cons.IH[of "cleanup @ [p]" "world_of ?C"]
      have 1: "followed ((?m # events_of ?C) @ events_of ?D)"
        using mC IH by (intro followed_append) auto
      have 2: "starts_next (hd ((?m # events_of ?C) @ events_of ?D))" by simp
      have 3: "\<forall>e. result_of ?D = Inl e
          \<longrightarrow> \<not> remove_failed (last ((?m # events_of ?C) @ events_of ?D))"
        using IH by auto
      show ?thesis unfolding E R using 1 2 3 by simp
    qed
  qed
qed

lemma cleaning_followed:
  "followed (Print MsgCleaning # map OsRemove ps)"
  "\<not> remove_failed (last (Print MsgCleaning # map OsRemove ps))"
proof -
  have q: "\<forall>e \<in> set (Print MsgCleaning # map OsRemove ps). \<not> remove_failed e" by auto
  then show "followed (Print MsgCleaning # map OsRemove ps)" by (rule followed_quiet)
  have "last (Print MsgCleaning # map OsRemove ps) \<in> set (Print MsgCleaning # map OsRemove ps)"
    by (rule last_in_set) simp
  then show "\<not> remove_failed (last (Print MsgCleaning # map OsRemove ps))" using q by blast
qed

lemma scan_and_run_followed:
  "followed (events_of (scan_and_run folder img extra cleanup w))
   \<and> (events_of (scan_and_run folder img extra cleanup w) = []
        \<or> starts_next (hd (events_of (scan_and_run folder img extra cleanup w))))
   \<and> (events_of (scan_and_run folder img extra cleanup w) = []
        \<or> \<not> remove_failed (last (events_of (scan_and_run folder img extra cleanup w))))"
proof (cases "\<exists>names. fs w folder = Some (Dir names)")
  case False
  then have "scan_and_run folder img extra cleanup w = (Inl StopIteration, w, [])"
    by (intro scan_and_run_no_Dir) simp
  then show ?thesis by simp
next
  case True
  then obtain names where dir: "fs w folder = Some (Dir names)" by blast
  let ?ds = "map (join folder) (filter (\<lambda>n. os_path_isdir w (join folder n)) names)"
  let ?fs = "map (join folder) (filter (\<lambda>n. \<not> os_path_isdir w (join folder n)) names)"
  let ?D = "dirs_loop folder img extra cleanup ?ds w"
  let ?F = "files_loop folder img extra ?fs (world_of ?D)"
  note unfold = scan_and_run_Dir[OF dir, of img extra cleanup]
  note dd = dirs_loop_followed[of folder img extra cleanup ?ds w]
  note ff = files_loop_followed[of folder img extra ?fs "world_of ?D"]
  show ?thesis
  proof (cases "result_of ?D")
    case (Inl e1)
    then have "events_of (scan_and_run folder img extra cleanup w) = events_of ?D"
      by (simp add: unfold)
    then show ?thesis using dd Inl by auto
  next
    case (Inr cl)
    have DF: "followed (events_of ?D @ events_of ?F)"
      using dd ff by (intro followed_append) auto
    have hDF: "events_of ?D @ events_of ?F = []
        \<or> starts_next (hd (events_of ?D @ events_of ?F))"
      using dd ff by (cases "events_of ?D") auto
    show ?thesis
    proof (cases "result_of ?F")
      case (Inl e2)
      then have E: "events_of (scan_and_run folder img extra cleanup w)
          = events_of ?D @ events_of ?F"
        using Inr by (simp add: unfold)
      have "\<not> remove_failed (last (events_of ?D @ events_of ?F))"
        using ff Inl by simp
      then show ?thesis unfolding E using DF hDF by simp
    next
      case r: (Inr u)
      let ?C = "cleanup_loop cl (world_of ?F)"
      obtain k where k: "events_of ?C = map OsRemove (take k cl)"
        using cleanup_loop_events by blast
      let ?t = "Print MsgCleaning # map OsRemove (take k cl)"
      have E: "events_of (scan_and_run folder img extra cleanup w)
          = (events_of ?D @ events_of ?F) @ ?t"
        using Inr r k by (simp add: unfold)
      have 1: "followed ((events_of ?D @ events_of ?F) @ ?t)"
        by (rule followed_append[OF DF cleaning_followed(1)]) simp
      have 2: "starts_next (hd ((events_of ?D @ events_of ?F) @ ?t))"
        using hDF by (cases "events_of ?D @ events_of ?F") auto
      have 3: "\<not> remove_failed (last ((events_of ?D @ events_of ?F) @ ?t))"
        using cleaning_followed(2)[of "take k cl"] by simp
      show ?thesis unfolding E using 1 2 3 by simp
    qed
  qed
qed

lemma grade_followed:
  "followed (events_of (grade a w))
   \<and> (events_of (grade a w) = [] \<or> \<not> remove_failed (last (events_of (grade a w))))"
proof (cases rule: grade_cases[of w a])
  case no_folder
  then show ?thesis by simp
next
  case (no_extra e)
  then show ?thesis by simp
next
  case plain
  then show ?thesis
    using scan_and_run_followed[of "args_folder a" "args_image a" "args_extra a" "[]" w] by simp
next
  case (unwrapped e)
  then show ?thesis by simp
next
  case (wrapped e p files)
  let ?S = "scan_and_run (args_folder a) (args_image a) (Some p) [p] (w\<lparr>fs := files\<rparr>)"
  let ?h = "[Print MsgCreatingTempGzip, MakeGzip e None (Some p)]"
  note ss = scan_and_run_followed[of "args_folder a" "args_image a" "Some p" "[p]" "w\<lparr>fs := files\<rparr>"]
  have E: "events_of (grade a w) = ?h @ events_of ?S" using wrapped(6) by simp
  have 1: "followed (?h @ events_of ?S)"
    using ss by (intro followed_append) simp_all
  have 2: "\<not> remove_failed (last (?h @ events_of ?S))"
    using ss by (cases "events_of ?S = []") simp_all
  show ?thesis unfolding E using 1 2 by simp
qed

lemma grade_goes_on:
  assumes "events_of (grade a w) = pre @ Print (MsgRemoveFailed m) # post"
  shows "post \<noteq> [] \<and> starts_next (hd post)"
proof -
  note g = grade_followed[of a w]
  have ne: "post \<noteq> []"
  proof
    assume "post = []"
    then have "last (events_of (grade a w)) = Print (MsgRemoveFailed m)" using assms by simp
    then show False using g assms by simp
  qed
  then obtain n rest where post: "post = n # rest" by (cases post) simp_all
  have "starts_next n"
    using g assms unfolding post by (intro followed_split[of "events_of (grade a w)" pre m n rest]) simp_all
  then show ?thesis using post by simp
qed


lemma failed_removal_is_skipped:
  assumes listed: "list_error w (containers w) = None"
      and split: "containers w = before @ c # after"
      and first: "\<forall>d \<in> set before. \<forall>r \<in> set (c_Names d).
                    \<not> name_matches r (container_name folder file)"
      and named: "\<exists>r \<in> set (c_Names c). name_matches r (container_name folder file)"
      and same: "c_Image c = img"
  shows "(\<exists>rest. events_of (create_container folder file img extra w)
            = Print (MsgUser (display_name file)) # ListContainers True # Print MsgRemoving
              # RemoveContainer (c_Id c) True # rest)
    \<and> (\<forall>m. remove_error w (c_Id c) = Some m \<longrightarrow>
          create_container folder file img extra w
            = (Inr (), w,
               [Print (MsgUser (display_name file)), ListContainers True, Print MsgRemoving,
                RemoveContainer (c_Id c) True, Print (MsgRemoveFailed m)])
          \<and> creations (events_of (create_container folder file img extra w)) = []
          \<and> files_loop folder img extra (file # files) w
              = (result_of (files_loop folder img extra files w),
                 world_of (files_loop folder img extra files w),
                 [Print (MsgUser (display_name file)), ListContainers True, Print MsgRemoving,
                  RemoveContainer (c_Id c) True, Print (MsgRemoveFailed m)]
                 @ events_of (files_loop folder img extra files w))
          \<and> (utils_make_gzip w0 (fs w0) d (Some (folder_name d)) = Some (file, fl)
                \<and> w = w0\<lparr>fs := fl\<rparr>
              \<longrightarrow> dirs_loop folder img extra cleanup (d # ds) w0
                    = (result_of (dirs_loop folder img extra (cleanup @ [file]) ds w),
                       world_of (dirs_loop folder img extra (cleanup @ [file]) ds w),
                       MakeGzip d (Some (folder_name d)) (Some file)
                         # [Print (MsgUser (display_name file)), ListContainers True,
                            Print MsgRemoving, RemoveContainer (c_Id c) True,
                            Print (MsgRemoveFailed m)]
                         @ events_of (dirs_loop folder img extra (cleanup @ [file]) ds w))))"
proof -
  let ?name = "container_name folder file"
  let ?L = "containers_loop ?name img (containers w) w"
  have L: "?L = containers_loop ?name img (c # after) w"
    using containers_loop_skip[OF first, of img "c # after" w] split by simp
  show ?thesis
  proof (cases rule: names_loop_cases[where names = "c_Names c" and name = ?name and c = c and img = img and w = w])
    case nomatch
    then show ?thesis using named by blast
  next
    case mismatch
    then show ?thesis using same by blast
  next
    case (unremoved m)
    let ?ev = "[Print (MsgUser (display_name file)), ListContainers True, Print MsgRemoving,
                RemoveContainer (c_Id c) True, Print (MsgRemoveFailed m)]"
    have "?L = (Inr True, w, [Print MsgRemoving, RemoveContainer (c_Id c) True, Print (MsgRemoveFailed m)])"
      using unremoved(4) by (simp add: L containers_loop_Cons del: containers_loop.simps)
    then have R: "create_container folder file img extra w = (Inr (), w, ?ev)"
      using listed by (simp add: create_container_unfold)
    have 1: "\<exists>rest. events_of (create_container folder file img extra w)
            = Print (MsgUser (display_name file)) # ListContainers True # Print MsgRemoving
              # RemoveContainer (c_Id c) True # rest"
      by (simp add: R)
    have 2: "creations (events_of (create_container folder file img extra w)) = []"
      by (simp add: R creations_def)
    have 3: "files_loop folder img extra (file # files) w
              = (result_of (files_loop folder img extra files w),
                 world_of (files_loop folder img extra files w),
                 ?ev @ events_of (files_loop folder img extra files w))"
      by (simp add: R split: prod.split)
    have 4: "utils_make_gzip w0 (fs w0) d (Some (folder_name d)) = Some (file, fl)
                \<and> w = w0\<lparr>fs := fl\<rparr>
              \<longrightarrow> dirs_loop folder img extra cleanup (d # ds) w0
                    = (result_of (dirs_loop folder img extra (cleanup @ [file]) ds w),
                       world_of (dirs_loop folder img extra (cleanup @ [file]) ds w),
                       MakeGzip d (Some (folder_name d)) (Some file)
                         # ?ev @ events_of (dirs_loop folder img extra (cleanup @ [file]) ds w))"
    proof
      assume a: "utils_make_gzip w0 (fs w0) d (Some (folder_name d)) = Some (file, fl)
                \<and> w = w0\<lparr>fs := fl\<rparr>"
      then have mk: "utils_make_gzip w0 (fs w0) d (Some (folder_name d)) = Some (file, fl)"
        and weq: "w0\<lparr>fs := fl\<rparr> = w"
        by simp_all
      show "dirs_loop folder img extra cleanup (d # ds) w0
                    = (result_of (dirs_loop folder img extra (cleanup @ [file]) ds w),
                       world_of (dirs_loop folder img extra (cleanup @ [file]) ds w),
                       MakeGzip d (Some (folder_name d)) (Some file)
                         # ?ev @ events_of (dirs_loop folder img extra (cleanup @ [file]) ds w))"
        by (simp add: dirs_loop_Cons mk weq R del: dirs_loop.simps)
    qed
    have m: "m' = m" if "remove_error w (c_Id c) = Some m'" for m'
      using that unremoved(3) by simp
    show ?thesis using 1 2 3 4 R m by blast
  next
    case removed
    have "events_of ?L = Print MsgRemoving # RemoveContainer (c_Id c) True
        # events_of (containers_loop ?name img after (world_of (names_loop ?name img c (c_Names c) w)))"
      using removed(4) by (simp add: L containers_loop_Cons del: containers_loop.simps)
    then show ?thesis using removed(3) listed by (simp add: create_container_unfold)
  qed
qed

text \<open>
  Claim C4. When the daemon answers the listing and the first listed container with a
  matching name was built from the image of the run, the call asks the daemon for its
  forced removal right after listing the containers. When that removal raises, the call
  prints the failure, asks for no new container, leaves the world as it was and returns
  without an exception, and the batch goes on: the loop over the files goes on with the
  remaining files from the same world; the loop over the directories, where the submission
  is the archive just packed for a directory, goes on with the remaining directories; and
  in every run of the whole script the line that reports a failed removal is followed by
  another event, which begins the next submission (the packing of a directory or the line
  with the name) or is the cleanup line.
\<close>

theorem same_image_container_is_removed_first:
  "(list_error w (containers w) = None
      \<and> containers w = before @ c # after
      \<and> (\<forall>d \<in> set before. \<forall>r \<in> set (c_Names d).
             \<not> name_matches r (container_name folder file))
      \<and> (\<exists>r \<in> set (c_Names c). name_matches r (container_name folder file))
      \<and> c_Image c = img
    \<longrightarrow>
      (\<exists>rest. events_of (create_container folder file img extra w)
            = Print (MsgUser (display_name file)) # ListContainers True # Print MsgRemoving
              # RemoveContainer (c_Id c) True # rest)
    \<and> (\<forall>m. remove_error w (c_Id c) = Some m \<longrightarrow>
          create_container folder file img extra w
            = (Inr (), w,
               [Print (MsgUser (display_name file)), ListContainers True, Print MsgRemoving,
                RemoveContainer (c_Id c) True, Print (MsgRemoveFailed m)])
          \<and> creations (events_of (create_container folder file img extra w)) = []
          \<and> files_loop folder img extra (file # files) w
              = (result_of (files_loop folder img extra files w),
                 world_of (files_loop folder img extra files w),
                 [Print (MsgUser (display_name file)), ListContainers True, Print MsgRemoving,
                  RemoveContainer (c_Id c) True, Print (MsgRemoveFailed m)]
                 @ events_of (files_loop folder img extra files w))
          \<and> (utils_make_gzip w0 (fs w0) d (Some (folder_name d)) = Some (file, fl)
                \<and> w = w0\<lparr>fs := fl\<rparr>
              \<longrightarrow> dirs_loop folder img extra cleanup (d # ds) w0
                    = (result_of (dirs_loop folder img extra (cleanup @ [file]) ds w),
                       world_of (dirs_loop folder img extra (cleanup @ [file]) ds w),
                       MakeGzip d (Some (folder_name d)) (Some file)
                         # [Print (MsgUser (display_name file)), ListContainers True,
                            Print MsgRemoving, RemoveContainer (c_Id c) True,
                            Print (MsgRemoveFailed m)]
                         @ events_of (dirs_loop folder img extra (cleanup @ [file]) ds w)))))
   \<and> (events_of (grade a w') = pre @ Print (MsgRemoveFailed m') # post
        \<longrightarrow> post \<noteq> [] \<and> starts_next (hd post))"
proof (rule conjI)
  show "events_of (grade a w') = pre @ Print (MsgRemoveFailed m') # post
        \<longrightarrow> post \<noteq> [] \<and> starts_next (hd post)"
    using grade_goes_on by blast
qed (intro impI, elim conjE, rule failed_removal_is_skipped)

theorem same_image_container_is_removed_first_witness:
  "create_container ''hw'' ''tmp/a.tgz'' ''img'' None
      (busy_world\<lparr>fs := (fs busy_world)(''tmp/a.tgz'' \<mapsto> File ''Zhw/a_submit'')\<rparr>)
     = (Inr (), busy_world\<lparr>fs := (fs busy_world)(''tmp/a.tgz'' \<mapsto> File ''Zhw/a_submit'')\<rparr>,
        [Print (MsgUser (display_name ''tmp/a.tgz'')), ListContainers True, Print MsgRemoving,
         RemoveContainer (c_Id same_a) True, Print (MsgRemoveFailed ''busy'')])
   \<and> dirs_loop ''hw'' ''img'' None [] [''hw/a_submit''] busy_world
     = (Inr [''tmp/a.tgz''],
        busy_world\<lparr>fs := (fs busy_world)(''tmp/a.tgz'' \<mapsto> File ''Zhw/a_submit'')\<rparr>,
        [MakeGzip ''hw/a_submit'' (Some (folder_name ''hw/a_submit'')) (Some ''tmp/a.tgz''),
         Print (MsgUser (display_name ''tmp/a.tgz'')), ListContainers True, Print MsgRemoving,
         RemoveContainer (c_Id same_a) True, Print (MsgRemoveFailed ''busy'')])
   \<and> events_of (grade (args0 None) busy_world)
     = [MakeGzip ''hw/a_submit'' (Some ''a'') (Some ''tmp/a.tgz''), Print (MsgUser ''a''),
        ListContainers True, Print MsgRemoving, RemoveContainer ''8'' True]
       @ Print (MsgRemoveFailed ''busy'')
       # [Print (MsgUser ''b''), ListContainers True,
          CreateContainer (new_container_args ''img'' ''hw_b'') (Some ''id_hw_b''),
          Print MsgExtracting, GzipRead ''hw/b.gz'', PutArchive ''id_hw_b'' ''/home/'' ''B'',
          Print MsgCreated, Print MsgCleaning, OsRemove ''tmp/a.tgz'']
   \<and> starts_next (hd [Print (MsgUser ''b''), ListContainers True,
          CreateContainer (new_container_args ''img'' ''hw_b'') (Some ''id_hw_b''),
          Print MsgExtracting, GzipRead ''hw/b.gz'', PutArchive ''id_hw_b'' ''/home/'' ''B'',
          Print MsgCreated, Print MsgCleaning, OsRemove ''tmp/a.tgz''])"
proof -
  let ?fl = "(fs busy_world)(''tmp/a.tgz'' \<mapsto> File ''Zhw/a_submit'')"
  let ?w = "busy_world\<lparr>fs := ?fl\<rparr>"
  let ?pre = "[MakeGzip ''hw/a_submit'' (Some ''a'') (Some ''tmp/a.tgz''), Print (MsgUser ''a''),
        ListContainers True, Print MsgRemoving, RemoveContainer ''8'' True]"
  let ?post = "[Print (MsgUser ''b''), ListContainers True,
          CreateContainer (new_container_args ''img'' ''hw_b'') (Some ''id_hw_b''),
          Print MsgExtracting, GzipRead ''hw/b.gz'', PutArchive ''id_hw_b'' ''/home/'' ''B'',
          Print MsgCreated, Print MsgCleaning, OsRemove ''tmp/a.tgz'']"
  have h0: "list_error ?w (containers ?w) = None" by (simp add: busy_world_def world0_def)
  have h1: "containers ?w = [] @ same_a # []" by (simp add: busy_world_def)
  have h2: "\<forall>d \<in> set []. \<forall>r \<in> set (c_Names d).
      \<not> name_matches r (container_name ''hw'' ''tmp/a.tgz'')" by simp
  have h3: "\<exists>r \<in> set (c_Names same_a). name_matches r (container_name ''hw'' ''tmp/a.tgz'')"
    by code_simp
  have h4: "c_Image same_a = ''img''" by (simp add: same_a_def)
  have h5: "remove_error ?w (c_Id same_a) = Some ''busy''" by (simp add: busy_world_def)
  have f: "folder_name ''hw/a_submit'' = ''a''" by code_simp
  have h6: "utils_make_gzip busy_world (fs busy_world) ''hw/a_submit''
      (Some (folder_name ''hw/a_submit'')) = Some (''tmp/a.tgz'', ?fl)"
    by (simp add: f) (simp add: busy_world_def world0_def sample_make_gzip_def Let_def)
  have h7: "events_of (grade (args0 None) busy_world)
      = ?pre @ Print (MsgRemoveFailed ''busy'') # ?post"
    by code_simp
  note T = same_image_container_is_removed_first[where w = ?w and before = "[]" and c = same_a
      and after = "[]" and folder = "''hw''" and ?file = "''tmp/a.tgz''" and img = "''img''"
      and extra = None and ?w0.0 = busy_world and d = "''hw/a_submit''" and fl = ?fl
      and cleanup = "[]" and ds = "[]" and a = "args0 None" and w' = busy_world
      and pre = ?pre and m' = "''busy''" and post = ?post]
  have 1: "create_container ''hw'' ''tmp/a.tgz'' ''img'' None ?w
     = (Inr (), ?w,
        [Print (MsgUser (display_name ''tmp/a.tgz'')), ListContainers True, Print MsgRemoving,
         RemoveContainer (c_Id same_a) True, Print (MsgRemoveFailed ''busy'')])"
    using T h0 h1 h2 h3 h4 h5 by blast
  have "dirs_loop ''hw'' ''img'' None [] [''hw/a_submit''] busy_world
     = (result_of (dirs_loop ''hw'' ''img'' None ([] @ [''tmp/a.tgz'']) [] ?w),
        world_of (dirs_loop ''hw'' ''img'' None ([] @ [''tmp/a.tgz'']) [] ?w),
        MakeGzip ''hw/a_submit'' (Some (folder_name ''hw/a_submit'')) (Some ''tmp/a.tgz'')
          # [Print (MsgUser (display_name ''tmp/a.tgz'')), ListContainers True, Print MsgRemoving,
             RemoveContainer (c_Id same_a) True, Print (MsgRemoveFailed ''busy'')]
          @ events_of (dirs_loop ''hw'' ''img'' None ([] @ [''tmp/a.tgz'']) [] ?w))"
    using T h0 h1 h2 h3 h4 h5 h6 by blast
  then have 2: "dirs_loop ''hw'' ''img'' None [] [''hw/a_submit''] busy_world
     = (Inr [''tmp/a.tgz''], ?w,
        [MakeGzip ''hw/a_submit'' (Some (folder_name ''hw/a_submit'')) (Some ''tmp/a.tgz''),
         Print (MsgUser (display_name ''tmp/a.tgz'')), ListContainers True, Print MsgRemoving,
         RemoveContainer (c_Id same_a) True, Print (MsgRemoveFailed ''busy'')])"
    by simp
  have 3: "starts_next (hd ?post)" using T h7 by blast
  show ?thesis using 1 2 h7 3 by (intro conjI)
qed

section \<open>Failures inside a batch\<close>

lemma cleanup_loop_raises:
  "result_of (cleanup_loop cl w) = Inl e \<Longrightarrow>
   e = OSError
   \<and> (\<exists>k < length cl. events_of (cleanup_loop cl w) = map OsRemove (take (Suc k) cl)
         \<and> \<not> os_path_isfile (world_of (cleanup_loop cl w)) (cl ! k))"
proof (induction cl arbitrary: w)
  case Nil
  then show ?case by simp
next
  case (Cons f cl)
  show ?case
  proof (cases "os_path_isfile w f")
    case False
    then have "cleanup_loop (f # cl) w = (Inl OSError, w, [OsRemove f])"
      by (auto simp: os_remove_def os_path_isfile_def split: option.splits node.splits)
    then show ?thesis using Cons.prems False by auto
  next
    case True
    let ?w1 = "w\<lparr>fs := (fs w)(f := None)\<rparr>"
    have step: "cleanup_loop (f # cl) w
        = (result_of (cleanup_loop cl ?w1), world_of (cleanup_loop cl ?w1),
           OsRemove f # events_of (cleanup_loop cl ?w1))"
      using True
      by (auto simp: os_remove_def os_path_isfile_def triple_case split: option.splits node.splits)
    then have "result_of (cleanup_loop cl ?w1) = Inl e"
      using Cons.prems by (simp del: cleanup_loop.simps)
    then obtain k where k: "e = OSError" "k < length cl"
        "events_of (cleanup_loop cl ?w1) = map OsRemove (take (Suc k) cl)"
        "\<not> os_path_isfile (world_of (cleanup_loop cl ?w1)) (cl ! k)"
      using Cons.IH[of ?w1] by blast
    have "Suc k < length (f # cl)
        \<and> events_of (cleanup_loop (f # cl) w) = map OsRemove (take (Suc (Suc k)) (f # cl))
        \<and> \<not> os_path_isfile (world_of (cleanup_loop (f # cl) w)) ((f # cl) ! Suc k)"
      unfolding step using k by simp
    then show ?thesis using k(1) by blast
  qed
qed

lemma scan_and_run_oserror:
  fixes folder img extra cleanup w
  defines "R \<equiv> scan_and_run folder img extra cleanup w"
  assumes os: "result_of R = Inl OSError"
  shows "Print MsgCleaning \<in> set (events_of R) \<and> removed_paths (events_of R) \<noteq> []
    \<and> \<not> os_path_isfile (world_of R) (last (removed_paths (events_of R)))"
proof (cases "\<exists>names. fs w folder = Some (Dir names)")
  case False
  then have "R = (Inl StopIteration, w, [])"
    unfolding R_def by (intro scan_and_run_no_Dir) simp
  then show ?thesis using os by simp
next
  case True
  then obtain names where dir: "fs w folder = Some (Dir names)" by blast
  let ?ds = "map (join folder) (filter (\<lambda>n. os_path_isdir w (join folder n)) names)"
  let ?fs = "map (join folder) (filter (\<lambda>n. \<not> os_path_isdir w (join folder n)) names)"
  let ?D = "dirs_loop folder img extra cleanup ?ds w"
  let ?F = "files_loop folder img extra ?fs (world_of ?D)"
  note unfold = scan_and_run_Dir[OF dir, of img extra cleanup]
  note dq = dirs_loop_quiet[where dirpath = folder and img = img and extra = extra
      and cleanup = cleanup and dirs = ?ds and w = w]
  note fq = files_loop_quiet[where dirpath = folder and img = img and extra = extra
      and files = ?fs and w = "world_of ?D"]
  show ?thesis
  proof (cases "result_of ?D")
    case (Inl e1)
    then have "result_of R = Inl e1" unfolding R_def by (simp add: unfold)
    then show ?thesis using os dirs_loop_raises[OF Inl] by simp
  next
    case (Inr cl)
    show ?thesis
    proof (cases "result_of ?F")
      case (Inl e2)
      then have "result_of R = Inl e2" unfolding R_def using Inr by (simp add: unfold)
      then show ?thesis using os files_loop_raises[OF Inl] by simp
    next
      case r: (Inr u)
      let ?C = "cleanup_loop cl (world_of ?F)"
      let ?body = "events_of ?D @ events_of ?F"
      have R: "R = (result_of ?C, world_of ?C, ?body @ Print MsgCleaning # events_of ?C)"
        unfolding R_def using Inr r by (simp add: unfold)
      then have "result_of ?C = Inl OSError" using os by simp
      then obtain k where k: "k < length cl" "events_of ?C = map OsRemove (take (Suc k) cl)"
          "\<not> os_path_isfile (world_of ?C) (cl ! k)"
        using cleanup_loop_raises by blast
      have rem: "removed_paths (events_of R) = take (Suc k) cl"
        using dq fq k(2) by (simp add: R)
      have ne: "take (Suc k) cl \<noteq> []" using k(1) by (cases cl) simp_all
      have "last (take (Suc k) cl) = cl ! k"
        using k(1) by (simp add: take_Suc_conv_app_nth)
      then show ?thesis using rem ne k(3) by (simp add: R)
    qed
  qed
qed

lemma grade_oserror:
  assumes "result_of (grade a w) = Inl OSError"
  shows "Print MsgCleaning \<in> set (events_of (grade a w))
    \<and> removed_paths (events_of (grade a w)) \<noteq> []
    \<and> \<not> os_path_isfile (world_of (grade a w)) (last (removed_paths (events_of (grade a w))))"
proof (cases rule: grade_cases[of w a])
  case no_folder
  then show ?thesis using assms by simp
next
  case (no_extra e)
  then show ?thesis using assms by simp
next
  case plain
  then show ?thesis
    using assms scan_and_run_oserror[of "args_folder a" "args_image a" "args_extra a" "[]" w]
    by simp
next
  case (unwrapped e)
  then show ?thesis using assms by simp
next
  case (wrapped e p files)
  let ?S = "scan_and_run (args_folder a) (args_image a) (Some p) [p] (w\<lparr>fs := files\<rparr>)"
  have "result_of ?S = Inl OSError" using assms wrapped(6) by simp
  then have "Print MsgCleaning \<in> set (events_of ?S) \<and> removed_paths (events_of ?S) \<noteq> []
    \<and> \<not> os_path_isfile (world_of ?S) (last (removed_paths (events_of ?S)))"
    by (rule scan_and_run_oserror)
  then show ?thesis using wrapped(6) by simp
qed

lemma create_container_returns:
  assumes "result_of (create_container folder file img extra w) = Inr ()"
  shows "(\<exists>i d d'. suffix (extraction_trace (container_name folder file) file img extra i d d')
             (events_of (create_container folder file img extra w)))
    \<or> last (events_of (create_container folder file img extra w))
         = Print (MsgSkipMismatch (container_name folder file))
    \<or> (\<exists>m. last (events_of (create_container folder file img extra w))
              = Print (MsgRemoveFailed m))"
proof -
  let ?name = "container_name folder file"
  let ?L = "containers_loop ?name img (containers w) w"
  let ?T = "create_and_extract ?name file img extra (world_of ?L)"
  have listed: "list_error w (containers w) = None"
    using assms by (cases "list_error w (containers w)") (simp_all add: create_container_unlisted)
  show ?thesis
  proof (cases "result_of ?L = Inr True")
    case True
    then have E: "events_of (create_container folder file img extra w)
        = Print (MsgUser (display_name file)) # ListContainers True # events_of ?L"
      using listed by (simp add: create_container_unfold)
    show ?thesis using containers_loop_last[OF True] by (simp add: E)
  next
    case False
    then have E: "events_of (create_container folder file img extra w)
        = (Print (MsgUser (display_name file)) # ListContainers True # events_of ?L) @ events_of ?T"
      and T: "result_of ?T = Inr ()"
      using listed assms by (simp_all add: create_container_unfold)
    have "\<exists>i d d'. events_of ?T = extraction_trace ?name file img extra i d d'"
    proof (cases rule: create_and_extract_cases[where name = ?name and ?file = "file"
          and img = img and extra = extra and w = "world_of ?L"])
      case refused
      then show ?thesis using T by simp
    next
      case (failed e i w' evs d d')
      then show ?thesis using T by simp
    next
      case (finished i w' d d')
      then show ?thesis by auto
    qed
    then obtain i d d' where "events_of ?T = extraction_trace ?name file img extra i d d'"
      by blast
    then have "suffix (extraction_trace ?name file img extra i d d')
        (events_of (create_container folder file img extra w))"
      unfolding E by (simp add: suffix_def)
    then show ?thesis by blast
  qed
qed

text \<open>
  Claim C2, amended. \<^verbatim>\<open>create_container\<close> catches the exception of
  \<^verbatim>\<open>cli.remove_container\<close> and nothing else, and \<^verbatim>\<open>grade\<close> catches nothing. A
  call of \<^verbatim>\<open>create_container\<close> that returns normally has created and filled its
  container, or its last line reports one of the two conditions it handles, the image
  mismatch and the failed removal. An exception of the listing leaves the call at once;
  whatever exception the call raises ends the loop over the files with that call, and
  the loop over the directories likewise; an exception of \<^verbatim>\<open>make_gzip\<close> for a
  directory ends the loop over the directories, and one for the extra file ends the run.
  The remaining submissions are not processed: in a run without extra file the exception
  of either loop is the outcome of \<^verbatim>\<open>grade\<close>, with the events of the loops and nothing
  after them. Whenever \<^verbatim>\<open>grade\<close> ends with an exception other than that of
  \<^verbatim>\<open>os.remove\<close>, it has printed no cleanup line and deleted nothing. The deletion at
  the end takes place in the other runs: a run that returns normally has handed every
  archive it packed to \<^verbatim>\<open>os.remove\<close>, in the order of packing; a run that ends with
  the exception of \<^verbatim>\<open>os.remove\<close> has printed the cleanup line and handed a
  non-empty initial part of the packed archives to \<^verbatim>\<open>os.remove\<close>, the last of which
  is no file, and the archives behind it stay.
\<close>

theorem failures_end_the_batch:
  "(list_error w (containers w) = Some m
      \<longrightarrow> create_container folder file img extra w
            = (Inl (APIError m), w, [Print (MsgUser (display_name file)), ListContainers True]))
   \<and> (result_of (create_container folder file img extra w) = Inr ()
      \<longrightarrow> (\<exists>i d d'. suffix (extraction_trace (container_name folder file) file img extra i d d')
                      (events_of (create_container folder file img extra w)))
          \<or> last (events_of (create_container folder file img extra w))
               = Print (MsgSkipMismatch (container_name folder file))
          \<or> (\<exists>t. last (events_of (create_container folder file img extra w))
                    = Print (MsgRemoveFailed t)))
   \<and> (result_of (create_container folder file img extra w) = Inl e1
      \<longrightarrow> files_loop folder img extra (file # rest) w
            = create_container folder file img extra w)
   \<and> (utils_make_gzip w (fs w) d (Some (folder_name d)) = None
      \<longrightarrow> dirs_loop folder img extra cleanup (d # ds) w
            = (Inl MakeGzipError, w, [MakeGzip d (Some (folder_name d)) None]))
   \<and> (utils_make_gzip w (fs w) d (Some (folder_name d)) = Some (p, files)
        \<and> result_of (create_container folder p img extra (w\<lparr>fs := files\<rparr>)) = Inl e2
      \<longrightarrow> dirs_loop folder img extra cleanup (d # ds) w
            = (Inl e2, world_of (create_container folder p img extra (w\<lparr>fs := files\<rparr>)),
               MakeGzip d (Some (folder_name d)) (Some p)
                 # events_of (create_container folder p img extra (w\<lparr>fs := files\<rparr>))))
   \<and> (os_path_isdir w (args_folder a) \<and> args_extra a = Some x \<and> os_path_isfile w x
        \<and> guess_encoding w x \<noteq> Some ''gzip'' \<and> utils_make_gzip w (fs w) x None = None
      \<longrightarrow> grade a w = (Inl MakeGzipError, w, [Print MsgCreatingTempGzip, MakeGzip x None None]))
   \<and> (fs w (args_folder a) = Some (Dir names) \<and> args_extra a = None
        \<and> result_of (dirs_loop (args_folder a) (args_image a) None []
              (map (join (args_folder a))
                 (filter (\<lambda>n. os_path_isdir w (join (args_folder a) n)) names)) w) = Inl e3
      \<longrightarrow> grade a w
            = (Inl e3,
               world_of (dirs_loop (args_folder a) (args_image a) None []
                 (map (join (args_folder a))
                    (filter (\<lambda>n. os_path_isdir w (join (args_folder a) n)) names)) w),
               events_of (dirs_loop (args_folder a) (args_image a) None []
                 (map (join (args_folder a))
                    (filter (\<lambda>n. os_path_isdir w (join (args_folder a) n)) names)) w)))
   \<and> (fs w (args_folder a) = Some (Dir names) \<and> args_extra a = None
        \<and> dirs_loop (args_folder a) (args_image a) None []
              (map (join (args_folder a))
                 (filter (\<lambda>n. os_path_isdir w (join (args_folder a) n)) names)) w
            = (Inr cl, w1, evs)
        \<and> result_of (files_loop (args_folder a) (args_image a) None
              (map (join (args_folder a))
                 (filter (\<lambda>n. \<not> os_path_isdir w (join (args_folder a) n)) names)) w1) = Inl e4
      \<longrightarrow> grade a w
            = (Inl e4,
               world_of (files_loop (args_folder a) (args_image a) None
                 (map (join (args_folder a))
                    (filter (\<lambda>n. \<not> os_path_isdir w (join (args_folder a) n)) names)) w1),
               evs @ events_of (files_loop (args_folder a) (args_image a) None
                 (map (join (args_folder a))
                    (filter (\<lambda>n. \<not> os_path_isdir w (join (args_folder a) n)) names)) w1)))
   \<and> (result_of (grade a w) = Inl e5 \<and> e5 \<noteq> OSError
      \<longrightarrow> removed_paths (events_of (grade a w)) = []
          \<and> Print MsgCleaning \<notin> set (events_of (grade a w)))
   \<and> (result_of (grade a w) = Inr ()
      \<longrightarrow> removed_paths (events_of (grade a w)) = made_paths (events_of (grade a w)))
   \<and> (result_of (grade a w) = Inl OSError
      \<longrightarrow> Print MsgCleaning \<in> set (events_of (grade a w))
          \<and> removed_paths (events_of (grade a w)) \<noteq> []
          \<and> prefix (removed_paths (events_of (grade a w))) (made_paths (events_of (grade a w)))
          \<and> \<not> os_path_isfile (world_of (grade a w))
                (last (removed_paths (events_of (grade a w)))))"
proof (intro conjI impI)
  assume "list_error w (containers w) = Some m"
  then show "create_container folder file img extra w
      = (Inl (APIError m), w, [Print (MsgUser (display_name file)), ListContainers True])"
    by (rule create_container_unlisted)
next
  assume "result_of (create_container folder file img extra w) = Inr ()"
  then show "(\<exists>i d d'. suffix (extraction_trace (container_name folder file) file img extra i d d')
                      (events_of (create_container folder file img extra w)))
          \<or> last (events_of (create_container folder file img extra w))
               = Print (MsgSkipMismatch (container_name folder file))
          \<or> (\<exists>t. last (events_of (create_container folder file img extra w))
                    = Print (MsgRemoveFailed t))"
    by (rule create_container_returns)
next
  assume "result_of (create_container folder file img extra w) = Inl e1"
  then show "files_loop folder img extra (file # rest) w = create_container folder file img extra w"
    by (simp add: files_loop_Cons del: files_loop.simps)
next
  assume "utils_make_gzip w (fs w) d (Some (folder_name d)) = None"
  then show "dirs_loop folder img extra cleanup (d # ds) w
      = (Inl MakeGzipError, w, [MakeGzip d (Some (folder_name d)) None])"
    by (simp add: dirs_loop_Cons del: dirs_loop.simps)
next
  assume "utils_make_gzip w (fs w) d (Some (folder_name d)) = Some (p, files)
        \<and> result_of (create_container folder p img extra (w\<lparr>fs := files\<rparr>)) = Inl e2"
  then show "dirs_loop folder img extra cleanup (d # ds) w
            = (Inl e2, world_of (create_container folder p img extra (w\<lparr>fs := files\<rparr>)),
               MakeGzip d (Some (folder_name d)) (Some p)
                 # events_of (create_container folder p img extra (w\<lparr>fs := files\<rparr>)))"
    by (simp add: dirs_loop_Cons del: dirs_loop.simps)
next
  assume "os_path_isdir w (args_folder a) \<and> args_extra a = Some x \<and> os_path_isfile w x
        \<and> guess_encoding w x \<noteq> Some ''gzip'' \<and> utils_make_gzip w (fs w) x None = None"
  then show "grade a w = (Inl MakeGzipError, w, [Print MsgCreatingTempGzip, MakeGzip x None None])"
    by (simp add: grade_def io_bind_def emit_def make_gzip_def)
next
  let ?ds = "map (join (args_folder a))
      (filter (\<lambda>n. os_path_isdir w (join (args_folder a) n)) names)"
  let ?D = "dirs_loop (args_folder a) (args_image a) None [] ?ds w"
  assume h: "fs w (args_folder a) = Some (Dir names) \<and> args_extra a = None
        \<and> result_of ?D = Inl e3"
  then have dir: "fs w (args_folder a) = Some (Dir names)" by simp
  have "os_path_isdir w (args_folder a)" using dir by (simp add: os_path_isdir_def)
  then have g: "grade a w = scan_and_run (args_folder a) (args_image a) None [] w"
    using h by (simp add: grade_def)
  show "grade a w = (Inl e3, world_of ?D, events_of ?D)"
    unfolding g using h by (simp add: scan_and_run_Dir[OF dir])
next
  let ?ds = "map (join (args_folder a))
      (filter (\<lambda>n. os_path_isdir w (join (args_folder a) n)) names)"
  let ?fs = "map (join (args_folder a))
      (filter (\<lambda>n. \<not> os_path_isdir w (join (args_folder a) n)) names)"
  let ?D = "dirs_loop (args_folder a) (args_image a) None [] ?ds w"
  let ?F = "files_loop (args_folder a) (args_image a) None ?fs w1"
  assume h: "fs w (args_folder a) = Some (Dir names) \<and> args_extra a = None
        \<and> ?D = (Inr cl, w1, evs) \<and> result_of ?F = Inl e4"
  then have dir: "fs w (args_folder a) = Some (Dir names)" by simp
  have "os_path_isdir w (args_folder a)" using dir by (simp add: os_path_isdir_def)
  then have g: "grade a w = scan_and_run (args_folder a) (args_image a) None [] w"
    using h by (simp add: grade_def)
  show "grade a w = (Inl e4, world_of ?F, evs @ events_of ?F)"
    unfolding g using h by (simp add: scan_and_run_Dir[OF dir])
next
  assume "result_of (grade a w) = Inl e5 \<and> e5 \<noteq> OSError"
  then have "removed_paths (events_of (grade a w)) = []
      \<and> Print MsgCleaning \<notin> set (events_of (grade a w))"
    using grade_removed_made(3)[of a w e5] by blast
  then show "removed_paths (events_of (grade a w)) = []"
    "Print MsgCleaning \<notin> set (events_of (grade a w))"
    by simp_all
next
  assume "result_of (grade a w) = Inr ()"
  then show "removed_paths (events_of (grade a w)) = made_paths (events_of (grade a w))"
    by (rule grade_removed_made(2))
next
  assume os: "result_of (grade a w) = Inl OSError"
  note g = grade_oserror[OF os]
  show "Print MsgCleaning \<in> set (events_of (grade a w))" using g by simp
  show "removed_paths (events_of (grade a w)) \<noteq> []" using g by simp
  show "prefix (removed_paths (events_of (grade a w))) (made_paths (events_of (grade a w)))"
    by (rule grade_removed_made(1))
  show "\<not> os_path_isfile (world_of (grade a w)) (last (removed_paths (events_of (grade a w))))"
    using g by simp
qed

theorem failures_end_the_batch_witness:
  "result_of (grade (args0 (Some ''x'')) refusing_world) = Inl (APIError ''create'')
   \<and> removed_paths (events_of (grade (args0 (Some ''x'')) refusing_world)) = []
   \<and> Print MsgCleaning \<notin> set (events_of (grade (args0 (Some ''x'')) refusing_world))
   \<and> files_loop ''hw'' ''img'' None [''hw/b.gz'', ''hw/c.gz''] refusing_world
       = create_container ''hw'' ''hw/b.gz'' ''img'' None refusing_world
   \<and> grade (args0 None) refusing_world
       = (Inl (APIError ''create''),
          world_of (dirs_loop ''hw'' ''img'' None [] [''hw/a_submit''] refusing_world),
          events_of (dirs_loop ''hw'' ''img'' None [] [''hw/a_submit''] refusing_world))
   \<and> result_of (grade (args0 None) twice_world) = Inl OSError
   \<and> Print MsgCleaning \<in> set (events_of (grade (args0 None) twice_world))
   \<and> \<not> os_path_isfile (world_of (grade (args0 None) twice_world))
         (last (removed_paths (events_of (grade (args0 None) twice_world))))
   \<and> result_of (grade (args0 None) world0) = Inr ()
   \<and> removed_paths (events_of (grade (args0 None) world0))
       = made_paths (events_of (grade (args0 None) world0))"
proof -
  have r: "result_of (grade (args0 (Some ''x'')) refusing_world) = Inl (APIError ''create'')"
    by code_simp
  have c: "result_of (create_container ''hw'' ''hw/b.gz'' ''img'' None refusing_world)
      = Inl (APIError ''create'')"
    by code_simp
  have n: "APIError ''create'' \<noteq> OSError" by simp
  note T = failures_end_the_batch[where a = "args0 (Some ''x'')" and w = refusing_world
      and ?e5.0 = "APIError ''create''" and ?e1.0 = "APIError ''create''" and folder = "''hw''"
      and ?file = "''hw/b.gz''" and img = "''img''" and extra = None and rest = "[''hw/c.gz'']"]
  have 1: "removed_paths (events_of (grade (args0 (Some ''x'')) refusing_world)) = []"
    using T r n by blast
  have 2: "Print MsgCleaning \<notin> set (events_of (grade (args0 (Some ''x'')) refusing_world))"
    using T r n by blast
  have 3: "files_loop ''hw'' ''img'' None [''hw/b.gz'', ''hw/c.gz''] refusing_world
       = create_container ''hw'' ''hw/b.gz'' ''img'' None refusing_world"
    using T c by blast
  have af: "args_folder (args0 None) = ''hw''" "args_image (args0 None) = ''img''"
      "args_extra (args0 None) = None"
    by (simp_all add: args0_def)
  have ds: "map (join ''hw'') (filter (\<lambda>n. os_path_isdir refusing_world (join ''hw'' n))
      [''a_submit'', ''b.gz'']) = [''hw/a_submit'']"
    by code_simp
  have d: "fs refusing_world ''hw'' = Some (Dir [''a_submit'', ''b.gz''])"
    by (simp add: refusing_world_def world0_def)
  have rd: "result_of (dirs_loop ''hw'' ''img'' None [] [''hw/a_submit''] refusing_world)
      = Inl (APIError ''create'')"
    by code_simp
  note U = failures_end_the_batch[where a = "args0 None" and w = refusing_world
      and names = "[''a_submit'', ''b.gz'']" and ?e3.0 = "APIError ''create''",
      unfolded af, unfolded ds]
  have 4: "grade (args0 None) refusing_world
       = (Inl (APIError ''create''),
          world_of (dirs_loop ''hw'' ''img'' None [] [''hw/a_submit''] refusing_world),
          events_of (dirs_loop ''hw'' ''img'' None [] [''hw/a_submit''] refusing_world))"
    using U d rd by blast
  have o: "result_of (grade (args0 None) twice_world) = Inl OSError" by code_simp
  note V = failures_end_the_batch[where a = "args0 None" and w = twice_world]
  note W = V[THEN conjunct2, THEN conjunct2, THEN conjunct2, THEN conjunct2, THEN conjunct2,
      THEN conjunct2, THEN conjunct2, THEN conjunct2, THEN conjunct2, THEN conjunct2,
      THEN mp, OF o]
  have 5: "Print MsgCleaning \<in> set (events_of (grade (args0 None) twice_world))"
    using W by (rule conjunct1)
  have 6: "\<not> os_path_isfile (world_of (grade (args0 None) twice_world))
         (last (removed_paths (events_of (grade (args0 None) twice_world))))"
    using W by simp
  have k: "result_of (grade (args0 None) world0) = Inr ()" by code_simp
  have 7: "removed_paths (events_of (grade (args0 None) world0))
       = made_paths (events_of (grade (args0 None) world0))"
    by (rule failures_end_the_batch[where a = "args0 None" and w = world0,
          THEN conjunct2, THEN conjunct2, THEN conjunct2, THEN conjunct2, THEN conjunct2,
          THEN conjunct2, THEN conjunct2, THEN conjunct2, THEN conjunct2, THEN conjunct1,
          THEN mp, OF k])
  show ?thesis using r 1 2 3 4 o 5 6 k 7 by (intro conjI)
qed

text \<open>
  Claim C2 as it is written fails. With a daemon that refuses to create containers, the
  first submission of the sample folder fails, the run ends with the exception, the
  second submission is never announced, nothing is deleted, and the two archives packed
  so far are still on disk. And the deletion at the end can stop half way without any
  submission failing: with two directories packed into the same archive, the second
  \<^verbatim>\<open>os.remove\<close> of that archive raises, and the archive of the third directory stays.
\<close>

theorem creation_failure_counterexample:
  "result_of (grade (args0 (Some ''x'')) refusing_world) = Inl (APIError ''create'')
   \<and> users (events_of (grade (args0 (Some ''x'')) refusing_world)) = [''a'']
   \<and> removed_paths (events_of (grade (args0 (Some ''x'')) refusing_world)) = []
   \<and> made_paths (events_of (grade (args0 (Some ''x'')) refusing_world))
       = [''tmp/extra.tgz'', ''tmp/a.tgz'']
   \<and> os_path_isfile (world_of (grade (args0 (Some ''x'')) refusing_world)) ''tmp/extra.tgz''
   \<and> os_path_isfile (world_of (grade (args0 (Some ''x'')) refusing_world)) ''tmp/a.tgz''
   \<and> result_of (grade (args0 None) twice_world) = Inl OSError
   \<and> users (events_of (grade (args0 None) twice_world)) = [''a'', ''a'', ''c'']
   \<and> made_paths (events_of (grade (args0 None) twice_world))
       = [''tmp/a.tgz'', ''tmp/a.tgz'', ''tmp/c.tgz'']
   \<and> removed_paths (events_of (grade (args0 None) twice_world)) = [''tmp/a.tgz'', ''tmp/a.tgz'']
   \<and> os_path_isfile (world_of (grade (args0 None) twice_world)) ''tmp/c.tgz''"
  by code_simp

section \<open>The extra file\<close>

lemma creations_prefix: "prefix xs ys \<Longrightarrow> length (creations xs) \<le> length (creations ys)"
  by (auto simp: prefix_def)

lemma containers_loop_creations:
  "creations (events_of (containers_loop name img cs w)) = []"
proof -
  have "\<And>e. e \<in> set (events_of (containers_loop name img cs w)) \<Longrightarrow> created_of e = []"
    using containers_loop_events[of name img cs w] lookup_event_quiet(1)
    by (fastforce simp: list_all_iff)
  then show ?thesis unfolding creations_def by (rule concat_map_Nil)
qed

lemma extraction_trace_creations:
  "length (creations (extraction_trace name file img extra i d d')) = 1"
  by (simp add: extraction_trace_def split: option.split)

lemma create_and_extract_creations:
  "length (creations (events_of (create_and_extract name file img extra w))) \<le> 1"
proof (cases rule: create_and_extract_cases[where name = name and ?file = "file" and img = img
      and extra = extra and w = w])
  case refused
  then show ?thesis by simp
next
  case (failed e i w' evs d d')
  then show ?thesis
    using creations_prefix[OF failed(2)] extraction_trace_creations[of name "file" img extra i d d']
    by simp
next
  case (finished i w' d d')
  then show ?thesis by (simp add: extraction_trace_creations)
qed

lemma create_container_creations:
  "length (creations (events_of (create_container folder file img extra w))) \<le> 1"
proof (cases "list_error w (containers w)")
  case (Some m)
  then show ?thesis by (simp add: create_container_unlisted)
next
  case None
  then show ?thesis
    using create_and_extract_creations
    by (simp add: create_container_unfold containers_loop_creations)
qed

lemma files_loop_applied:
  "\<exists>done rest. events_of (files_loop dirpath img (Some x) files w) = done @ rest
     \<and> extra_applied x done \<and> length (creations rest) \<le> 1
     \<and> (\<forall>u. result_of (files_loop dirpath img (Some x) files w) = Inr u \<longrightarrow> rest = [])"
proof (induction files arbitrary: w)
  case Nil
  have "events_of (files_loop dirpath img (Some x) [] w) = [] @ []
     \<and> extra_applied x [] \<and> length (creations []) \<le> 1
     \<and> (\<forall>u. result_of (files_loop dirpath img (Some x) [] w) = Inr u \<longrightarrow> [] = [])"
    by simp
  then show ?case by blast
next
  case (Cons f files)
  let ?C = "create_container dirpath f img (Some x) w"
  show ?case
  proof (cases "result_of ?C")
    case (Inl e)
    then have eq: "files_loop dirpath img (Some x) (f # files) w = ?C"
      by (simp add: files_loop_Cons del: files_loop.simps)
    have "events_of (files_loop dirpath img (Some x) (f # files) w) = [] @ events_of ?C
       \<and> extra_applied x [] \<and> length (creations (events_of ?C)) \<le> 1
       \<and> (\<forall>u. result_of (files_loop dirpath img (Some x) (f # files) w) = Inr u
             \<longrightarrow> events_of ?C = [])"
      unfolding eq using Inl create_container_creations by simp
    then show ?thesis by blast
  next
    case (Inr u)
    let ?F = "files_loop dirpath img (Some x) files (world_of ?C)"
    have E: "events_of (files_loop dirpath img (Some x) (f # files) w) = events_of ?C @ events_of ?F"
      and R: "result_of (files_loop dirpath img (Some x) (f # files) w) = result_of ?F"
      using Inr by (simp_all add: files_loop_Cons del: files_loop.simps)
    obtain dn rest where IH: "events_of ?F = dn @ rest" "extra_applied x dn"
        "length (creations rest) \<le> 1" "\<forall>u. result_of ?F = Inr u \<longrightarrow> rest = []"
      using Cons.IH[of "world_of ?C"] by blast
    have c: "extra_applied x (events_of ?C)"
      using Inr by (intro create_container_extra_applied) simp
    have "events_of (files_loop dirpath img (Some x) (f # files) w) = (events_of ?C @ dn) @ rest
       \<and> extra_applied x (events_of ?C @ dn) \<and> length (creations rest) \<le> 1
       \<and> (\<forall>u. result_of (files_loop dirpath img (Some x) (f # files) w) = Inr u \<longrightarrow> rest = [])"
      unfolding E R using IH c by (simp add: extra_applied_append)
    then show ?thesis by blast
  qed
qed

lemma dirs_loop_applied:
  "\<exists>done rest. events_of (dirs_loop dirpath img (Some x) cleanup dirs w) = done @ rest
     \<and> extra_applied x done \<and> length (creations rest) \<le> 1
     \<and> (\<forall>u. result_of (dirs_loop dirpath img (Some x) cleanup dirs w) = Inr u \<longrightarrow> rest = [])"
proof (induction dirs arbitrary: w cleanup)
  case Nil
  have "events_of (dirs_loop dirpath img (Some x) cleanup [] w) = [] @ []
     \<and> extra_applied x [] \<and> length (creations []) \<le> 1
     \<and> (\<forall>u. result_of (dirs_loop dirpath img (Some x) cleanup [] w) = Inr u \<longrightarrow> [] = [])"
    by simp
  then show ?case by blast
next
  case (Cons d dirs)
  let ?L = "dirs_loop dirpath img (Some x) cleanup (d # dirs) w"
  show ?case
  proof (cases "utils_make_gzip w (fs w) d (Some (folder_name d))")
    case None
    then have eq: "?L = (Inl MakeGzipError, w, [MakeGzip d (Some (folder_name d)) None])"
      by (simp add: dirs_loop_Cons del: dirs_loop.simps)
    have "events_of ?L = [] @ [MakeGzip d (Some (folder_name d)) None]
       \<and> extra_applied x [] \<and> length (creations [MakeGzip d (Some (folder_name d)) None]) \<le> 1
       \<and> (\<forall>u. result_of ?L = Inr u \<longrightarrow> [MakeGzip d (Some (folder_name d)) None] = [])"
      unfolding eq by simp
    then show ?thesis by blast
  next
    case (Some pf)
    obtain p files where pf: "pf = (p, files)" by (cases pf)
    let ?C = "create_container dirpath p img (Some x) (w\<lparr>fs := files\<rparr>)"
    let ?m = "MakeGzip d (Some (folder_name d)) (Some p)"
    show ?thesis
    proof (cases "result_of ?C")
      case (Inl e)
      then have E: "events_of ?L = [?m] @ events_of ?C" and R: "result_of ?L = Inl e"
        using Some pf by (simp_all add: dirs_loop_Cons del: dirs_loop.simps)
      have "events_of ?L = [?m] @ events_of ?C
         \<and> extra_applied x [?m] \<and> length (creations (events_of ?C)) \<le> 1
         \<and> (\<forall>u. result_of ?L = Inr u \<longrightarrow> events_of ?C = [])"
        unfolding R using E create_container_creations by simp
      then show ?thesis by blast
    next
      case (Inr u)
      let ?D = "dirs_loop dirpath img (Some x) (cleanup @ [p]) dirs (world_of ?C)"
      have E: "events_of ?L = (?m # events_of ?C) @ events_of ?D"
        and R: "result_of ?L = result_of ?D"
        using Inr Some pf by (simp_all add: dirs_loop_Cons del: dirs_loop.simps)
      obtain dn rest where IH: "events_of ?D = dn @ rest" "extra_applied x dn"
          "length (creations rest) \<le> 1" "\<forall>u. result_of ?D = Inr u \<longrightarrow> rest = []"
        using Cons.IH[of "cleanup @ [p]" "world_of ?C"] by blast
      have c: "extra_applied x (?m # events_of ?C)"
        using Inr create_container_extra_applied[of dirpath p img x "w\<lparr>fs := files\<rparr>"] by simp
      have a: "extra_applied x ((?m # events_of ?C) @ dn)"
        using c IH(2) by (rule extra_applied_append)
      have "events_of ?L = ((?m # events_of ?C) @ dn) @ rest
         \<and> extra_applied x ((?m # events_of ?C) @ dn) \<and> length (creations rest) \<le> 1
         \<and> (\<forall>u. result_of ?L = Inr u \<longrightarrow> rest = [])"
        unfolding E R using IH(1,3,4) a by (simp del: extra_applied.simps)
      then show ?thesis by blast
    qed
  qed
qed

lemma creations_map_OsRemove [simp]: "creations (map OsRemove ps) = []"
  by (induction ps) simp_all

lemma scan_and_run_applied:
  fixes folder img x cleanup w
  defines "R \<equiv> scan_and_run folder img (Some x) cleanup w"
  shows "\<exists>done rest. events_of R = done @ rest
     \<and> extra_applied x done \<and> length (creations rest) \<le> 1
     \<and> ((\<forall>e. result_of R = Inl e \<longrightarrow> e = OSError) \<longrightarrow> creations rest = [])"
proof (cases "\<exists>names. fs w folder = Some (Dir names)")
  case False
  then have "R = (Inl StopIteration, w, [])"
    unfolding R_def by (intro scan_and_run_no_Dir) simp
  then have "events_of R = [] @ [] \<and> extra_applied x [] \<and> length (creations []) \<le> 1
     \<and> ((\<forall>e. result_of R = Inl e \<longrightarrow> e = OSError) \<longrightarrow> creations [] = [])"
    by simp
  then show ?thesis by blast
next
  case True
  then obtain names where dir: "fs w folder = Some (Dir names)" by blast
  let ?ds = "map (join folder) (filter (\<lambda>n. os_path_isdir w (join folder n)) names)"
  let ?fs = "map (join folder) (filter (\<lambda>n. \<not> os_path_isdir w (join folder n)) names)"
  let ?D = "dirs_loop folder img (Some x) cleanup ?ds w"
  let ?F = "files_loop folder img (Some x) ?fs (world_of ?D)"
  note unfold = scan_and_run_Dir[OF dir, of img "Some x" cleanup]
  obtain dD rD where D: "events_of ?D = dD @ rD" "extra_applied x dD"
      "length (creations rD) \<le> 1" "\<forall>u. result_of ?D = Inr u \<longrightarrow> rD = []"
    using dirs_loop_applied[of dirpath img x cleanup ?ds w for dirpath] by blast
  obtain dF rF where F: "events_of ?F = dF @ rF" "extra_applied x dF"
      "length (creations rF) \<le> 1" "\<forall>u. result_of ?F = Inr u \<longrightarrow> rF = []"
    using files_loop_applied[of dirpath img x ?fs "world_of ?D" for dirpath] by blast
  show ?thesis
  proof (cases "result_of ?D")
    case (Inl e1)
    then have R: "events_of R = dD @ rD" "result_of R = Inl e1"
      unfolding R_def using D(1) by (simp_all add: unfold)
    have "e1 \<noteq> OSError" using Inl by (rule dirs_loop_raises)
    then have "events_of R = dD @ rD \<and> extra_applied x dD \<and> length (creations rD) \<le> 1
       \<and> ((\<forall>e. result_of R = Inl e \<longrightarrow> e = OSError) \<longrightarrow> creations rD = [])"
      using R D by simp
    then show ?thesis by blast
  next
    case (Inr cl)
    then have rD: "rD = []" using D(4) by simp
    show ?thesis
    proof (cases "result_of ?F")
      case (Inl e2)
      then have R: "events_of R = (dD @ dF) @ rF" "result_of R = Inl e2"
        unfolding R_def using Inr D(1) F(1) rD by (simp_all add: unfold)
      have "e2 \<noteq> OSError" using Inl by (rule files_loop_raises)
      then have "events_of R = (dD @ dF) @ rF \<and> extra_applied x (dD @ dF)
         \<and> length (creations rF) \<le> 1
         \<and> ((\<forall>e. result_of R = Inl e \<longrightarrow> e = OSError) \<longrightarrow> creations rF = [])"
        using R D F by (simp add: extra_applied_append)
      then show ?thesis by blast
    next
      case r: (Inr u)
      then have rF: "rF = []" using F(4) by simp
      let ?C = "cleanup_loop cl (world_of ?F)"
      obtain k where k: "events_of ?C = map OsRemove (take k cl)"
        using cleanup_loop_events by blast
      let ?t = "Print MsgCleaning # map OsRemove (take k cl)"
      have R: "events_of R = (dD @ dF) @ ?t"
        unfolding R_def using Inr r k D(1) F(1) rD rF by (simp add: unfold)
      have "events_of R = (dD @ dF) @ ?t \<and> extra_applied x (dD @ dF)
         \<and> length (creations ?t) \<le> 1
         \<and> ((\<forall>e. result_of R = Inl e \<longrightarrow> e = OSError) \<longrightarrow> creations ?t = [])"
        using R D F by (simp add: extra_applied_append)
      then show ?thesis by blast
    qed
  qed
qed

text \<open>
  Claim C5, amended. Let the folder be a directory and the extra path a plain file. When
  \<^verbatim>\<open>mimetypes\<close> does not take the name of the extra file for that of a gzip file, the
  run packs it exactly once, as its first act after the message and before any submission.
  The archive \<open>p\<close> that the packer returned is read and copied to \<^verbatim>\<open>/home/\<close> of the
  created containers, right after each container's own archive: of all of them when no
  exception ends the run before the cleanup, and of all but at most the one that was being
  set up when an exception ended the run. In a run that returns normally all deletions
  come after the cleanup message, \<open>p\<close> first, and \<open>p\<close> is deleted exactly once unless the
  packer returned the same path again for a directory; a run that ends with an exception
  other than that of \<^verbatim>\<open>os.remove\<close> deletes nothing. When the name is taken for that of
  a gzip file, nothing is packed for the extra, the file itself is what the created
  containers get in the same way, and only archives that were packed for directories are
  deleted.
\<close>

theorem extra_is_wrapped_once:
  assumes folder: "os_path_isdir w (args_folder a)"
      and extra: "args_extra a = Some e"
      and isfile: "os_path_isfile w e"
  shows "(guess_encoding w e \<noteq> Some ''gzip'' \<longrightarrow>
            wrapped (events_of (grade a w)) = [e]
          \<and> (\<exists>r rest. events_of (grade a w)
                 = Print MsgCreatingTempGzip # MakeGzip e None r # rest)
          \<and> (utils_make_gzip w (fs w) e None = Some (p, files) \<longrightarrow>
                (\<exists>done rest. events_of (grade a w) = done @ rest
                   \<and> extra_applied p done \<and> length (creations rest) \<le> 1
                   \<and> ((\<forall>e'. result_of (grade a w) = Inl e' \<longrightarrow> e' = OSError)
                        \<longrightarrow> creations rest = [])))
          \<and> (result_of (grade a w) = Inr () \<longrightarrow>
                (\<exists>p body. events_of (grade a w)
                     = Print MsgCreatingTempGzip # MakeGzip e None (Some p) # body
                       @ Print MsgCleaning # map OsRemove (p # made_paths body)
                   \<and> removed_paths body = []
                   \<and> extra_applied p body
                   \<and> (p \<notin> set (made_paths body)
                        \<longrightarrow> count_list (removed_paths (events_of (grade a w))) p = 1)))
          \<and> (result_of (grade a w) = Inl e1 \<and> e1 \<noteq> OSError
                \<longrightarrow> removed_paths (events_of (grade a w)) = []))
     \<and> (guess_encoding w e = Some ''gzip'' \<longrightarrow>
            wrapped (events_of (grade a w)) = []
          \<and> prefix (removed_paths (events_of (grade a w))) (made_paths (events_of (grade a w)))
          \<and> (\<exists>done rest. events_of (grade a w) = done @ rest
                 \<and> extra_applied e done \<and> length (creations rest) \<le> 1
                 \<and> ((\<forall>e'. result_of (grade a w) = Inl e' \<longrightarrow> e' = OSError)
                      \<longrightarrow> creations rest = []))
          \<and> (result_of (grade a w) = Inr () \<longrightarrow>
                (\<exists>body. events_of (grade a w)
                     = body @ Print MsgCleaning # map OsRemove (made_paths body)
                   \<and> removed_paths body = []
                   \<and> extra_applied e body
                   \<and> removed_paths (events_of (grade a w)) = made_paths body)))"
proof (cases rule: grade_cases[of w a])
  case no_folder
  then show ?thesis using folder by simp
next
  case (no_extra x)
  then show ?thesis using extra isfile by simp
next
  case plain
  then have gz: "guess_encoding w e = Some ''gzip''" using extra by auto
  let ?S = "scan_and_run (args_folder a) (args_image a) (Some e) [] w"
  have g: "grade a w = ?S" using plain(3) extra by simp
  have 1: "wrapped (events_of ?S) = []" by (rule scan_and_run_summary(2))
  have 2: "result_of ?S = Inr () \<longrightarrow>
      (\<exists>body. events_of ?S = body @ Print MsgCleaning # map OsRemove (made_paths body)
         \<and> removed_paths body = [] \<and> extra_applied e body
         \<and> removed_paths (events_of ?S) = made_paths body)"
  proof
    assume "result_of ?S = Inr ()"
    then obtain names body where b:
      "events_of ?S = body @ Print MsgCleaning # map OsRemove ([] @ made_paths body)"
      "removed_paths body = []" "\<forall>x. Some e = Some x \<longrightarrow> extra_applied x body"
      using scan_and_run_summary(4)[of "args_folder a" "args_image a" "Some e" "[]" w] by blast
    have "events_of ?S = body @ Print MsgCleaning # map OsRemove (made_paths body)
         \<and> removed_paths body = [] \<and> extra_applied e body
         \<and> removed_paths (events_of ?S) = made_paths body"
      using b by simp
    then show "\<exists>body. events_of ?S = body @ Print MsgCleaning # map OsRemove (made_paths body)
         \<and> removed_paths body = [] \<and> extra_applied e body
         \<and> removed_paths (events_of ?S) = made_paths body"
      by (rule exI)
  qed
  have 3: "prefix (removed_paths (events_of ?S)) (made_paths (events_of ?S))"
    using scan_and_run_summary(1)[of "args_folder a" "args_image a" "Some e" "[]" w] by simp
  have 4: "\<exists>done rest. events_of ?S = done @ rest
                 \<and> extra_applied e done \<and> length (creations rest) \<le> 1
                 \<and> ((\<forall>e'. result_of ?S = Inl e' \<longrightarrow> e' = OSError)
                      \<longrightarrow> creations rest = [])"
    by (rule scan_and_run_applied)
  show ?thesis unfolding g using gz 1 2 3 4 by simp
next
  case (unwrapped x)
  then have x: "x = e" using extra by simp
  have g: "grade a w = (Inl MakeGzipError, w, [Print MsgCreatingTempGzip, MakeGzip e None None])"
    using unwrapped(5) x by simp
  have none: "utils_make_gzip w (fs w) e None = None"
    using g folder extra isfile unwrapped(4) x
    by (cases "utils_make_gzip w (fs w) e None")
       (auto simp: grade_def io_bind_def emit_def make_gzip_def isfile_not_isdir split: prod.splits)
  show ?thesis using unwrapped(4) x none by (simp add: g)
next
  case (wrapped x p' files')
  then have x: "x = e" using extra by simp
  have ngz: "guess_encoding w e \<noteq> Some ''gzip''" using wrapped(4) x by simp
  have mk: "utils_make_gzip w (fs w) e None = Some (p', files')" using wrapped(5) x by simp
  let ?S = "scan_and_run (args_folder a) (args_image a) (Some p') [p'] (w\<lparr>fs := files'\<rparr>)"
  have g: "grade a w = (result_of ?S, world_of ?S,
      Print MsgCreatingTempGzip # MakeGzip e None (Some p') # events_of ?S)"
    using wrapped(6) x by simp
  have 1: "wrapped (events_of (grade a w)) = [e]"
    using scan_and_run_summary(2)[of "args_folder a" "args_image a" "Some p'" "[p']" "w\<lparr>fs := files'\<rparr>"]
    by (simp add: g)
  have 2: "\<exists>r rest. events_of (grade a w) = Print MsgCreatingTempGzip # MakeGzip e None r # rest"
    by (simp add: g)
  have 3: "result_of (grade a w) = Inr () \<longrightarrow>
      (\<exists>p body. events_of (grade a w)
           = Print MsgCreatingTempGzip # MakeGzip e None (Some p) # body
             @ Print MsgCleaning # map OsRemove (p # made_paths body)
         \<and> removed_paths body = []
         \<and> extra_applied p body
         \<and> (p \<notin> set (made_paths body)
              \<longrightarrow> count_list (removed_paths (events_of (grade a w))) p = 1))"
  proof
    assume "result_of (grade a w) = Inr ()"
    then have "result_of ?S = Inr ()" by (simp add: g)
    then obtain names body where b:
      "events_of ?S = body @ Print MsgCleaning # map OsRemove ([p'] @ made_paths body)"
      "removed_paths body = []" "\<forall>x. Some p' = Some x \<longrightarrow> extra_applied x body"
      using scan_and_run_summary(4)[of "args_folder a" "args_image a" "Some p'" "[p']" "w\<lparr>fs := files'\<rparr>"]
      by blast
    have c: "p' \<notin> set (made_paths body)
        \<longrightarrow> count_list (removed_paths (events_of (grade a w))) p' = 1"
      using b(1) b(2) by (simp add: g count_list_0_iff)
    have "events_of (grade a w)
           = Print MsgCreatingTempGzip # MakeGzip e None (Some p') # body
             @ Print MsgCleaning # map OsRemove (p' # made_paths body)
         \<and> removed_paths body = []
         \<and> extra_applied p' body
         \<and> (p' \<notin> set (made_paths body)
              \<longrightarrow> count_list (removed_paths (events_of (grade a w))) p' = 1)"
      using b c by (simp add: g)
    then show "\<exists>p body. events_of (grade a w)
           = Print MsgCreatingTempGzip # MakeGzip e None (Some p) # body
             @ Print MsgCleaning # map OsRemove (p # made_paths body)
         \<and> removed_paths body = []
         \<and> extra_applied p body
         \<and> (p \<notin> set (made_paths body)
              \<longrightarrow> count_list (removed_paths (events_of (grade a w))) p = 1)"
      by blast
  qed
  have 4: "utils_make_gzip w (fs w) e None = Some (p, files) \<longrightarrow>
                (\<exists>done rest. events_of (grade a w) = done @ rest
                   \<and> extra_applied p done \<and> length (creations rest) \<le> 1
                   \<and> ((\<forall>e'. result_of (grade a w) = Inl e' \<longrightarrow> e' = OSError)
                        \<longrightarrow> creations rest = []))"
  proof
    assume "utils_make_gzip w (fs w) e None = Some (p, files)"
    then have p: "p' = p" using mk by simp
    obtain dn rest where d: "events_of ?S = dn @ rest" "extra_applied p' dn"
        "length (creations rest) \<le> 1"
        "(\<forall>e'. result_of ?S = Inl e' \<longrightarrow> e' = OSError) \<longrightarrow> creations rest = []"
      using scan_and_run_applied[of "args_folder a" "args_image a" p' "[p']" "w\<lparr>fs := files'\<rparr>"]
      by blast
    let ?dn = "Print MsgCreatingTempGzip # MakeGzip e None (Some p') # dn"
    have "events_of (grade a w) = ?dn @ rest
        \<and> extra_applied p ?dn \<and> length (creations rest) \<le> 1
        \<and> ((\<forall>e'. result_of (grade a w) = Inl e' \<longrightarrow> e' = OSError)
             \<longrightarrow> creations rest = [])"
      using d p by (simp add: g)
    then show "\<exists>done rest. events_of (grade a w) = done @ rest
        \<and> extra_applied p done \<and> length (creations rest) \<le> 1
        \<and> ((\<forall>e'. result_of (grade a w) = Inl e' \<longrightarrow> e' = OSError)
             \<longrightarrow> creations rest = [])"
      by blast
  qed
  have 5: "result_of (grade a w) = Inl e1 \<and> e1 \<noteq> OSError
                \<longrightarrow> removed_paths (events_of (grade a w)) = []"
    using grade_removed_made(3)[of a w e1] by blast
  show ?thesis using ngz 1 2 3 4 5 by blast
qed

theorem extra_is_wrapped_once_witness:
  "wrapped (events_of (grade (args0 (Some ''x'')) world0)) = [''x'']
   \<and> result_of (grade (args0 (Some ''x'')) world0) = Inr ()
   \<and> (\<exists>p body. events_of (grade (args0 (Some ''x'')) world0)
         = Print MsgCreatingTempGzip # MakeGzip ''x'' None (Some p) # body
           @ Print MsgCleaning # map OsRemove (p # made_paths body)
       \<and> removed_paths body = []
       \<and> extra_applied p body)
   \<and> count_list (removed_paths (events_of (grade (args0 (Some ''x'')) world0))) ''tmp/extra.tgz'' = 1
   \<and> result_of (grade (args0 (Some ''x'')) unwritable_world) = Inl (APIError ''put'')
   \<and> removed_paths (events_of (grade (args0 (Some ''x'')) unwritable_world)) = []
   \<and> (\<exists>done rest. events_of (grade (args0 (Some ''x'')) unwritable_world) = done @ rest
         \<and> extra_applied ''tmp/extra.tgz'' done \<and> length (creations rest) \<le> 1)
   \<and> wrapped (events_of (grade (args0 (Some ''x.gz'')) world0)) = []
   \<and> (\<exists>body. events_of (grade (args0 (Some ''x.gz'')) world0)
         = body @ Print MsgCleaning # map OsRemove (made_paths body)
       \<and> extra_applied ''x.gz'' body)"
proof -
  have f: "os_path_isdir world0 (args_folder (args0 (Some ''x'')))" by code_simp
  have x: "args_extra (args0 (Some ''x'')) = Some ''x''" by (simp add: args0_def)
  have i: "os_path_isfile world0 ''x''" by code_simp
  have n: "guess_encoding world0 ''x'' \<noteq> Some ''gzip''" by (simp add: world0_def)
  have r: "result_of (grade (args0 (Some ''x'')) world0) = Inr ()" by code_simp
  have c: "count_list (removed_paths (events_of (grade (args0 (Some ''x'')) world0))) ''tmp/extra.tgz'' = 1"
    by code_simp
  note T = extra_is_wrapped_once[OF f x i]
  have 1: "wrapped (events_of (grade (args0 (Some ''x'')) world0)) = [''x'']"
    using T n by blast
  have 2: "\<exists>p body. events_of (grade (args0 (Some ''x'')) world0)
         = Print MsgCreatingTempGzip # MakeGzip ''x'' None (Some p) # body
           @ Print MsgCleaning # map OsRemove (p # made_paths body)
       \<and> removed_paths body = []
       \<and> extra_applied p body"
    using T n r by blast
  have fu: "os_path_isdir unwritable_world (args_folder (args0 (Some ''x'')))" by code_simp
  have iu: "os_path_isfile unwritable_world ''x''" by code_simp
  have nu: "guess_encoding unwritable_world ''x'' \<noteq> Some ''gzip''"
    by (simp add: unwritable_world_def world0_def)
  have ru: "result_of (grade (args0 (Some ''x'')) unwritable_world) = Inl (APIError ''put'')"
    by code_simp
  have ne: "APIError ''put'' \<noteq> OSError" by simp
  have mu: "utils_make_gzip unwritable_world (fs unwritable_world) ''x'' None
      = Some (''tmp/extra.tgz'', (fs unwritable_world)(''tmp/extra.tgz'' \<mapsto> File ''Zx''))"
    by (simp add: unwritable_world_def world0_def sample_make_gzip_def Let_def)
  note U = extra_is_wrapped_once[OF fu x iu, where p = "''tmp/extra.tgz''"
      and files = "(fs unwritable_world)(''tmp/extra.tgz'' \<mapsto> File ''Zx'')"
      and ?e1.0 = "APIError ''put''"]
  have 3: "removed_paths (events_of (grade (args0 (Some ''x'')) unwritable_world)) = []"
    using U nu ru ne by blast
  have 4: "\<exists>done rest. events_of (grade (args0 (Some ''x'')) unwritable_world) = done @ rest
         \<and> extra_applied ''tmp/extra.tgz'' done \<and> length (creations rest) \<le> 1"
    using U nu mu by blast
  have f': "os_path_isdir world0 (args_folder (args0 (Some ''x.gz'')))" by code_simp
  have x': "args_extra (args0 (Some ''x.gz'')) = Some ''x.gz''" by (simp add: args0_def)
  have i': "os_path_isfile world0 ''x.gz''" by code_simp
  have n': "guess_encoding world0 ''x.gz'' = Some ''gzip''" by (simp add: world0_def)
  have r': "result_of (grade (args0 (Some ''x.gz'')) world0) = Inr ()" by code_simp
  note T' = extra_is_wrapped_once[OF f' x' i']
  have 5: "wrapped (events_of (grade (args0 (Some ''x.gz'')) world0)) = []"
    using T' n' by blast
  have 6: "\<exists>body. events_of (grade (args0 (Some ''x.gz'')) world0)
         = body @ Print MsgCleaning # map OsRemove (made_paths body)
       \<and> extra_applied ''x.gz'' body"
    using T' n' r' by blast
  show ?thesis using 1 r 2 c ru 3 4 5 6 by (intro conjI)
qed

text \<open>
  Claim C5 as it is written fails. With a daemon that refuses every copy, the container
  of the first submission is created and gets no archive at all, the run ends with the
  exception, and the packed extra archive is never deleted. And what decides between
  packing and passing on is the name of the extra file, not its content: the file
  \<^verbatim>\<open>x\<close> of the sample world holds data that the decoder accepts, and it is packed
  all the same.
\<close>

theorem extraction_failure_counterexample:
  "result_of (grade (args0 (Some ''x'')) unwritable_world) = Inl (APIError ''put'')
   \<and> map ca_name (creations (events_of (grade (args0 (Some ''x'')) unwritable_world)))
       = [''hw_a'']
   \<and> map c_Archives (containers (world_of (grade (args0 (Some ''x'')) unwritable_world)))
       = [[]]
   \<and> wrapped (events_of (grade (args0 (Some ''x'')) unwritable_world)) = [''x'']
   \<and> removed_paths (events_of (grade (args0 (Some ''x'')) unwritable_world)) = []
   \<and> os_path_isfile (world_of (grade (args0 (Some ''x'')) unwritable_world)) ''tmp/extra.tgz''
   \<and> fs world0 ''x'' = Some (File ''X'')
   \<and> gunzip world0 ''X'' = Some ''X''
   \<and> wrapped (events_of (grade (args0 (Some ''x'')) world0)) = [''x'']"
  by code_simp

end
